theory Spec2Isabelle
  imports Main "HOL-Library.Word" "HOL-Library.Sublist"
begin

unbundle bit_operations_syntax

section \<open>JavaScript strings\<close>

text \<open>
  A JavaScript string is a sequence of UTF-16 code units; \<open>length\<close>, \<open>charCodeAt\<close>,
  \<open>slice\<close> and \<open>indexOf\<close> all count code units. The embedding keeps that: a string is
  a list of 16-bit words. \<open>js\<close> turns an ASCII literal into such a string.
\<close>

type_synonym jschar = "16 word"
type_synonym jsstring = "jschar list"

definition js :: "string \<Rightarrow> jsstring" where
  "js s = map of_char s"

text \<open>The class \<open>\s\<close> of regular expressions, which is also what \<open>trim\<close> and
  \<open>parseInt\<close> skip: WhiteSpace and LineTerminator of ECMAScript.\<close>

definition isSpace :: "jschar \<Rightarrow> bool" where
  "isSpace c \<longleftrightarrow> (0x9 \<le> c \<and> c \<le> 0xD) \<or> c = 0x20 \<or> c = 0xA0 \<or> c = 0x1680
     \<or> (0x2000 \<le> c \<and> c \<le> 0x200A) \<or> c = 0x2028 \<or> c = 0x2029 \<or> c = 0x202F
     \<or> c = 0x205F \<or> c = 0x3000 \<or> c = 0xFEFF"

text \<open>The characters that \<open>.\<close> does not match and after which \<open>^\<close> matches under the
  \<open>m\<close> flag.\<close>

definition isLineTerminator :: "jschar \<Rightarrow> bool" where
  "isLineTerminator c \<longleftrightarrow> c = 0xA \<or> c = 0xD \<or> c = 0x2028 \<or> c = 0x2029"

definition isDigit :: "jschar \<Rightarrow> bool" where
  "isDigit c \<longleftrightarrow> 0x30 \<le> c \<and> c \<le> 0x39"

text \<open>The class \<open>\w\<close>: ASCII letters, digits and the underscore.\<close>

definition isWordChar :: "jschar \<Rightarrow> bool" where
  "isWordChar c \<longleftrightarrow> (0x41 \<le> c \<and> c \<le> 0x5A) \<or> (0x61 \<le> c \<and> c \<le> 0x7A)
     \<or> isDigit c \<or> c = 0x5F"

text \<open>Case folding of the \<open>i\<close> flag (without the \<open>u\<close> flag) on a pattern of ASCII
  letters: only the ASCII capital matches the small letter, since a character outside ASCII
  whose capital is an ASCII letter is left as it is by the canonicalisation.\<close>

definition lowerAscii :: "jschar \<Rightarrow> jschar" where
  "lowerAscii c = (if 0x41 \<le> c \<and> c \<le> 0x5A then c + 0x20 else c)"

text \<open>\<open>String.prototype.toLowerCase\<close> on the Basic Latin and Latin-1 Supplement blocks;
  code units beyond U+00FF are left unchanged in this embedding.\<close>

definition toLowerChar :: "jschar \<Rightarrow> jschar" where
  "toLowerChar c = (if (0x41 \<le> c \<and> c \<le> 0x5A) \<or> (0xC0 \<le> c \<and> c \<le> 0xDE \<and> c \<noteq> 0xD7)
                    then c + 0x20 else c)"

definition toLowerCase :: "jsstring \<Rightarrow> jsstring" where
  "toLowerCase s = map toLowerChar s"

definition trim :: "jsstring \<Rightarrow> jsstring" where
  "trim s = rev (dropWhile isSpace (rev (dropWhile isSpace s)))"

text \<open>\<open>s.startsWith(p)\<close> and \<open>s.includes(p)\<close>.\<close>

definition startsWith :: "jsstring \<Rightarrow> jsstring \<Rightarrow> bool" where
  "startsWith s p \<longleftrightarrow> take (length p) s = p"

fun includesStr :: "jsstring \<Rightarrow> jsstring \<Rightarrow> bool" where
  "includesStr [] p = (p = [])"
| "includesStr (c # cs) p = (startsWith (c # cs) p \<or> includesStr cs p)"

text \<open>Matching a lower-case ASCII pattern at the start of a string under the \<open>i\<close> flag;
  the result is what follows the match.\<close>

definition stripPrefixCI :: "jsstring \<Rightarrow> jsstring \<Rightarrow> jsstring option" where
  "stripPrefixCI p s = (if length p \<le> length s \<and> map lowerAscii (take (length p) s) = p
                        then Some (drop (length p) s) else None)"

text \<open>\<open>arr.join(sep)\<close>.\<close>

fun join :: "jsstring \<Rightarrow> jsstring list \<Rightarrow> jsstring" where
  "join sep [] = []"
| "join sep [x] = x"
| "join sep (x # y # ys) = x @ sep @ join sep (y # ys)"

text \<open>\<open>s.split("\n")\<close>: always at least one piece.\<close>

fun splitLines :: "jsstring \<Rightarrow> jsstring list" where
  "splitLines [] = [[]]"
| "splitLines (c # cs) = (if c = 0xA then [] # splitLines cs
                          else (case splitLines cs of l # ls \<Rightarrow> (c # l) # ls | [] \<Rightarrow> [[c]]))"

text \<open>
  \<open>safeText(el) = (el?.textContent || "").trim()\<close>. An element that a selector may or may
  not find is the option of its \<open>textContent\<close>, which is a string for every element.
\<close>

definition safeText :: "jsstring option \<Rightarrow> jsstring" where
  "safeText el = trim (case el of None \<Rightarrow> [] | Some t \<Rightarrow> t)"

subsection \<open>Numbers\<close>

definition digitsValue :: "jsstring \<Rightarrow> nat" where
  "digitsValue ds = foldl (\<lambda>n c. 10 * n + (unat c - 48)) 0 ds"

text \<open>
  \<open>parseInt(s, 10)\<close>: leading white space is skipped, one sign is read, then the longest
  run of decimal digits; without a digit the result is \<open>NaN\<close>, here \<open>None\<close>. The value
  is an unbounded integer, which is what the double holds for every digit run below
  \<open>2^53\<close>.
\<close>

definition parseInt :: "jsstring \<Rightarrow> int option" where
  "parseInt s =
    (let t = dropWhile isSpace s;
         neg = (case t of c # r \<Rightarrow> c = 0x2D | [] \<Rightarrow> False);
         u = (case t of c # r \<Rightarrow> if c = 0x2D \<or> c = 0x2B then r else t | [] \<Rightarrow> []);
         ds = takeWhile isDigit u
     in if ds = [] then None
        else Some (if neg then - int (digitsValue ds) else int (digitsValue ds)))"

text \<open>The digits of a natural number in a base up to 36, as \<open>toString(base)\<close> prints
  them, and the decimal rendering of an integer in a template literal. The rendering
  writes every digit, which is what the template literal does for every number below
  \<open>10^21\<close>; from there on JavaScript prints exponent notation.\<close>

definition digitChar :: "nat \<Rightarrow> jschar" where
  "digitChar d = (if d < 10 then of_nat (48 + d) else of_nat (87 + d))"

fun digitsOf :: "nat \<Rightarrow> nat \<Rightarrow> jsstring" where
  "digitsOf b n = (if b < 2 \<or> n < b then [digitChar n]
                   else digitsOf b (n div b) @ [digitChar (n mod b)])"

definition showNat :: "nat \<Rightarrow> jsstring" where
  "showNat n = digitsOf 10 n"

definition showInt :: "int \<Rightarrow> jsstring" where
  "showInt i = (if i < 0 then 0x2D # showNat (nat (- i)) else showNat (nat i))"

section \<open>Utilities\<close>

text \<open>
  \<open>hashString\<close>: the loop keeps \<open>h\<close> in 32 bits (\<open>^=\<close> converts to a 32-bit integer;
  the sum of the shifts is exact in a double and is reduced at the next \<open>^=\<close> or at the
  final \<open>>>> 0\<close>), so it is arithmetic on a 32-bit word. The result is printed in base 36.
\<close>

definition hashStep :: "32 word \<Rightarrow> jschar \<Rightarrow> 32 word" where
  "hashStep h c = (let h1 = h XOR ucast c in
     h1 + (push_bit 1 h1 + push_bit 4 h1 + push_bit 7 h1 + push_bit 8 h1 + push_bit 24 h1))"

definition hashWord :: "jsstring \<Rightarrow> 32 word" where
  "hashWord str = foldl hashStep 0x811c9dc5 str"

definition hashString :: "jsstring \<Rightarrow> jsstring" where
  "hashString str = digitsOf 36 (unat (hashWord str))"

section \<open>The page as the selectors see it\<close>

text \<open>
  The extraction reads the document only through \<open>querySelector\<close>,
  \<open>querySelectorAll\<close>, \<open>getAttribute\<close> and \<open>textContent\<close>. A node is therefore
  modelled by what these calls return on it: one field per selector the code uses, an
  option for \<open>querySelector\<close> (a missing element is \<open>None\<close>) and a list in document
  order for \<open>querySelectorAll\<close>.
\<close>

text \<open>The code table of a thread: for each \<open>tr\<close> the \<open>innerText\<close> of its
  \<open>.blob-code-inner\<close> cell when it has one, and the text of the whole table.\<close>

record code_table =
  rowCode :: "jsstring option list"
  tableText :: jsstring

text \<open>A \<open>details\<close> element: its \<open>summary\<close> and its first \<open>pre, code\<close>.\<close>

record details_block =
  summaryEl :: "jsstring option"
  codeEl :: "jsstring option"

text \<open>A row of a suggested-changes table: the two marker queries and the cell queries in
  the order the code tries them, then all \<open>td\<close> cells.\<close>

record blob_row =
  hasDeletion :: bool
  hasAddition :: bool
  tdBlobCodeInner :: "jsstring option"
  tdDescBlobCodeInner :: "jsstring option"
  tdBlobCode :: "jsstring option"
  tdLastChild :: "jsstring option"
  tds :: "jsstring list"

text \<open>The comment body \<open>.js-comment-body, .comment-body\<close>.\<close>

record comment_body =
  bodyText :: jsstring
  listItems :: "jsstring list"
  detailsBlocks :: "details_block list"
  blobTables :: "blob_row list list"
  preBlocks :: "jsstring list"
  firstCode :: "jsstring option"

text \<open>
  A candidate comment root. \<open>hasBodyLike\<close> is the test of
  \<open>findCommentRootsInTurboFrame\<close>; \<open>proseText\<close> is the text of the clone of
  \<open>taskLists || body\<close> after the code, table and button elements are removed (\<open>None\<close>
  when there is neither).
\<close>

record comment_root =
  hasBodyLike :: bool
  body :: "comment_body option"
  proseText :: "jsstring option"
  authorLink :: "jsstring option"
  authorHref :: "jsstring option"
  botBadge :: "jsstring option"
  permalink :: "jsstring option"

record turbo_frame =
  frameIdAttr :: jsstring
  outerHTML :: jsstring
  candidates :: "comment_root list"
  specificFileLink :: "jsstring option"
  dataPath :: "jsstring option"
  fileLink :: "jsstring option"
  anyPathy :: "jsstring option"
  specificLineDiv :: "jsstring option"
  dataLineNumbers :: "jsstring list"
  blobNums :: "jsstring list"
  lineAnchors :: "jsstring list"
  codeTable :: "code_table option"

section \<open>Context locators\<close>

subsection \<open>Line range\<close>

text \<open>
  \<open>/Lines?\s+(\d+)(?:-(\d+))?/i\<close> anchored at the start of a string: the two groups.
  Every quantifier is greedy and no shorter choice can let the rest match (after
  \<open>line\<close> an \<open>s\<close> that is skipped is not white space, a digit given back is not a
  \<open>-\<close>), so the match is read off from left to right.
\<close>

definition matchLinesAt :: "jsstring \<Rightarrow> (jsstring \<times> jsstring option) option" where
  "matchLinesAt s =
    (case stripPrefixCI (js ''line'') s of
       None \<Rightarrow> None
     | Some r0 \<Rightarrow>
        (let r1 = (case r0 of c # r \<Rightarrow> if lowerAscii c = 0x73 then r else r0 | [] \<Rightarrow> r0);
             r2 = dropWhile isSpace r1;
             d1 = takeWhile isDigit r2;
             r3 = dropWhile isDigit r2
         in if takeWhile isSpace r1 = [] \<or> d1 = [] then None
            else Some (d1, (case r3 of
                              c # r \<Rightarrow> if c = 0x2D \<and> takeWhile isDigit r \<noteq> []
                                       then Some (takeWhile isDigit r) else None
                            | [] \<Rightarrow> None))))"

text \<open>\<open>text.match(re)\<close>: the leftmost position where the expression matches.\<close>

fun matchLines :: "jsstring \<Rightarrow> (jsstring \<times> jsstring option) option" where
  "matchLines [] = None"
| "matchLines (c # cs) = (case matchLinesAt (c # cs) of
                            Some m \<Rightarrow> Some m
                          | None \<Rightarrow> matchLines cs)"

text \<open>\<open>href.match(/#(?:L|R)(\d+)/)\<close>: the digits of the leftmost match.\<close>

fun matchAnchor :: "jsstring \<Rightarrow> jsstring option" where
  "matchAnchor [] = None"
| "matchAnchor (c # cs) =
    (if c = 0x23 \<and> (case cs of d # r \<Rightarrow> (d = 0x4C \<or> d = 0x52) \<and> takeWhile isDigit r \<noteq> []
                               | [] \<Rightarrow> False)
     then Some (takeWhile isDigit (tl cs))
     else matchAnchor cs)"

text \<open>\<open>if (!Number.isNaN(n)) nums.add(n)\<close> on a \<open>Set\<close>, kept as the list of its
  elements in insertion order.\<close>

definition addNum :: "int option \<Rightarrow> int list \<Rightarrow> int list" where
  "addNum n nums = (case n of None \<Rightarrow> nums
                    | Some v \<Rightarrow> if v \<in> set nums then nums else nums @ [v])"

definition numsFromLineText :: "jsstring option \<Rightarrow> int list \<Rightarrow> int list" where
  "numsFromLineText el nums =
    (case el of
       None \<Rightarrow> nums
     | Some t \<Rightarrow>
        (case matchLines (safeText (Some t)) of
           None \<Rightarrow> nums
         | Some (m1, m2) \<Rightarrow>
            (let start = parseInt m1;
                 end = (case m2 of Some d \<Rightarrow> parseInt d | None \<Rightarrow> start)
             in addNum end (addNum start nums))))"

definition numsFromAnchor :: "int list \<Rightarrow> jsstring \<Rightarrow> int list" where
  "numsFromAnchor nums href =
    (case matchAnchor href of None \<Rightarrow> nums | Some d \<Rightarrow> addNum (parseInt d) nums)"

text \<open>The candidate set of \<open>findLineRangeInFrame\<close> after its four sources.\<close>

definition collectLineNums :: "turbo_frame \<Rightarrow> int list" where
  "collectLineNums frame =
    (let n0 = numsFromLineText (specificLineDiv frame) [];
         n1 = foldl (\<lambda>nums a. addNum (parseInt a) nums) n0 (dataLineNumbers frame);
         n2 = foldl (\<lambda>nums t. addNum (parseInt (safeText (Some t))) nums) n1 (blobNums frame)
     in foldl numsFromAnchor n2 (lineAnchors frame))"

record line_range =
  lineStart :: "int option"
  lineEnd :: "int option"

definition findLineRangeInFrame :: "turbo_frame \<Rightarrow> line_range" where
  "findLineRangeInFrame frame =
    (let nums = collectLineNums frame
     in if length nums = 0 then \<lparr> lineStart = None, lineEnd = None \<rparr>
        else (let arr = sort nums
              in \<lparr> lineStart = Some (arr ! 0), lineEnd = Some (arr ! (length arr - 1)) \<rparr>))"

text \<open>A thread in which no selector of the locators finds anything.\<close>

definition emptyFrame :: turbo_frame where
  "emptyFrame = \<lparr> frameIdAttr = js ''review-thread-or-comment-id-1'', outerHTML = [],
     candidates = [], specificFileLink = None, dataPath = None, fileLink = None,
     anyPathy = None, specificLineDiv = None, dataLineNumbers = [], blobNums = [],
     lineAnchors = [], codeTable = None \<rparr>"

text \<open>A thread without line-number evidence: the line text matches nothing and no
  attribute, row number or anchor parses to a number.\<close>

definition noLineEvidence :: "turbo_frame \<Rightarrow> bool" where
  "noLineEvidence frame \<longleftrightarrow>
     (case specificLineDiv frame of None \<Rightarrow> True
      | Some t \<Rightarrow> matchLines (safeText (Some t)) = None)
     \<and> list_all (\<lambda>a. parseInt a = None) (dataLineNumbers frame)
     \<and> list_all (\<lambda>t. parseInt (safeText (Some t)) = None) (blobNums frame)
     \<and> list_all (\<lambda>h. matchAnchor h = None) (lineAnchors frame)"

definition plusLinesFrame :: turbo_frame where
  "plusLinesFrame = emptyFrame \<lparr> specificLineDiv := Some (js ''Comment on lines +67 to +87'') \<rparr>"

definition dashLinesFrame :: turbo_frame where
  "dashLinesFrame = emptyFrame \<lparr> specificLineDiv := Some (js ''Lines 42-45'') \<rparr>"

definition mixedLinesFrame :: turbo_frame where
  "mixedLinesFrame = emptyFrame \<lparr> specificLineDiv := Some (js ''Comment on line 7''),
     dataLineNumbers := [js ''12'', js ''x''], blobNums := [js ''+67'', js ''3''],
     lineAnchors := [js ''/pull/1/files#R12'', js ''#Lx#L99''] \<rparr>"

definition proseFrame :: turbo_frame where
  "proseFrame = emptyFrame \<lparr> specificLineDiv := Some (js ''no range here''),
     dataLineNumbers := [js ''x''], blobNums := [js ''...''], lineAnchors := [js ''#Lx''] \<rparr>"

subsection \<open>File path\<close>

text \<open>\<open>/\.\w+$/.test(s)\<close>: the string ends in a dot and at least one word character.\<close>

definition endsWithExtension :: "jsstring \<Rightarrow> bool" where
  "endsWithExtension s \<longleftrightarrow>
     takeWhile isWordChar (rev s) \<noteq> []
     \<and> (case dropWhile isWordChar (rev s) of c # r \<Rightarrow> c = 0x2E | [] \<Rightarrow> False)"

definition findFilePathInFrame :: "turbo_frame \<Rightarrow> jsstring option" where
  "findFilePathInFrame frame =
    (case specificFileLink frame of
       Some t \<Rightarrow> Some (safeText (Some t))
     | None \<Rightarrow>
        (if (case dataPath frame of Some v \<Rightarrow> v \<noteq> [] | None \<Rightarrow> False)
         then Some (trim (the (dataPath frame)))
         else (let candidate = safeText (fileLink frame) in
           if candidate \<noteq> [] \<and> (includesStr candidate (js ''/'') \<or> endsWithExtension candidate)
           then Some candidate
           else (let pathy = safeText (anyPathy frame) in
             if pathy \<noteq> [] \<and> includesStr pathy (js ''/'') then Some pathy else None))))"

subsection \<open>Code mentioned\<close>

definition findCodeMentionedInFrame :: "turbo_frame \<Rightarrow> jsstring option" where
  "findCodeMentionedInFrame frame =
    (case codeTable frame of
       None \<Rightarrow> None
     | Some table \<Rightarrow>
        (let codeLines = concat (map (\<lambda>r. case r of Some t \<Rightarrow> [t] | None \<Rightarrow> []) (rowCode table))
         in if length codeLines > 0 then Some (join (js ''\<newline>'') codeLines)
            else Some (safeText (Some (tableText table)))))"

section \<open>Comment text\<close>

text \<open>\<open>s.replace(/p/g, "")\<close> for a literal pattern: every occurrence, found from left to
  right, is removed.\<close>

function removeAll :: "jsstring \<Rightarrow> jsstring \<Rightarrow> jsstring" where
  "removeAll p [] = []"
| "removeAll p (c # cs) = (if p \<noteq> [] \<and> startsWith (c # cs) p
                           then removeAll p (drop (length p) (c # cs))
                           else c # removeAll p cs)"
  by pat_completeness auto
termination
  by (relation "measure (\<lambda>(p, s). length s)") (auto simp: neq_Nil_conv)

definition extractReviewTextOnly :: "comment_root \<Rightarrow> jsstring option" where
  "extractReviewTextOnly commentRoot =
    (case proseText commentRoot of
       None \<Rightarrow> None
     | Some clone \<Rightarrow>
        (let t = trim (removeAll (js ''Commit suggestion'')
                       (removeAll (js ''Suggestion applied'')
                         (removeAll (js ''Suggested change'') (safeText (Some clone)))))
         in if t = [] then None else Some t))"

section \<open>Comment classifier\<close>

text \<open>\<open>/\bcopilot\b/.test(s)\<close>; the flag says whether the position is at a word
  boundary on its left.\<close>

fun wordCopilotFrom :: "bool \<Rightarrow> jsstring \<Rightarrow> bool" where
  "wordCopilotFrom b [] = False"
| "wordCopilotFrom b (c # cs) =
    ((b \<and> startsWith (c # cs) (js ''copilot'')
        \<and> (case drop 7 (c # cs) of d # r \<Rightarrow> \<not> isWordChar d | [] \<Rightarrow> True))
     \<or> wordCopilotFrom (\<not> isWordChar c) cs)"

text \<open>\<open>/ai\s+review/.test(s)\<close>.\<close>

fun aiReview :: "jsstring \<Rightarrow> bool" where
  "aiReview [] = False"
| "aiReview (c # cs) =
    ((startsWith (c # cs) (js ''ai'') \<and> takeWhile isSpace (drop 2 (c # cs)) \<noteq> []
        \<and> startsWith (dropWhile isSpace (drop 2 (c # cs))) (js ''review''))
     \<or> aiReview cs)"

definition isCopilotAuthor :: "comment_root \<Rightarrow> bool" where
  "isCopilotAuthor commentRoot =
    (let authorText = toLowerCase (safeText (authorLink commentRoot));
         href = (case authorHref commentRoot of Some h \<Rightarrow> h | None \<Rightarrow> []);
         botText = toLowerCase (safeText (botBadge commentRoot));
         bodyTxt = toLowerCase (safeText (map_option bodyText (body commentRoot)))
     in if includesStr authorText (js ''copilot'') then True
        else if includesStr href (js ''githubcopilot'') \<or> includesStr href (js ''github-copilot'')
        then True
        else if includesStr botText (js ''bot'') \<and> includesStr authorText (js ''copilot'')
        then True
        else if wordCopilotFrom True bodyTxt \<or> aiReview bodyTxt then True
        else False)"

definition getAnchorUrlForComment :: "jsstring \<Rightarrow> comment_root \<Rightarrow> jsstring" where
  "getAnchorUrlForComment locationHref commentRoot =
    (case permalink commentRoot of
       Some href \<Rightarrow> if href \<noteq> [] then href else locationHref
     | None \<Rightarrow> locationHref)"

section \<open>Suggestion segmenter\<close>

definition extractListItems :: "comment_body \<Rightarrow> jsstring list" where
  "extractListItems container =
     filter (\<lambda>txt. txt \<noteq> []) (map (\<lambda>li. safeText (Some li)) (listItems container))"

text \<open>
  The first alternative of the line pattern, \<open>^(-|\*|\d+\.)\s+(.+)$\<close>: what the marker
  leaves, and then group 2. \<open>.+\<close> has to reach the end of the line and matches no line
  terminator; when nothing follows the white space, \<open>\s+\<close> gives its last character
  back to it.
\<close>

definition afterMarker :: "jsstring \<Rightarrow> jsstring option" where
  "afterMarker line =
    (case line of
       [] \<Rightarrow> None
     | c # r \<Rightarrow>
        if c = 0x2D \<or> c = 0x2A then Some r
        else (case dropWhile isDigit line of
                d # r' \<Rightarrow> if takeWhile isDigit line \<noteq> [] \<and> d = 0x2E then Some r' else None
              | [] \<Rightarrow> None))"

definition restGroup :: "nat \<Rightarrow> jsstring \<Rightarrow> jsstring option" where
  "restGroup least r =
    (let ws = takeWhile isSpace r; cap = dropWhile isSpace r
     in if length ws < least then None
        else if cap \<noteq> [] then (if list_ex isLineTerminator cap then None else Some cap)
        else if length ws > least \<and> \<not> isLineTerminator (last ws) then Some [last ws]
        else None)"

text \<open>The second alternative,
  \<open>^(suggestion|fix|improve|change|refactor|rename|remove|add|update)[:\-]\s*(.+)$\<close>
  under the \<open>i\<close> flag: what follows the keyword and its separator.\<close>

definition keywordList :: "jsstring list" where
  "keywordList = map js [''suggestion'', ''fix'', ''improve'', ''change'', ''refactor'',
                      ''rename'', ''remove'', ''add'', ''update'']"

fun afterKeyword :: "jsstring list \<Rightarrow> jsstring \<Rightarrow> jsstring option" where
  "afterKeyword [] line = None"
| "afterKeyword (k # ks) line =
    (case stripPrefixCI k line of
       Some (c # r) \<Rightarrow> if c = 0x3A \<or> c = 0x2D then Some r else afterKeyword ks line
     | _ \<Rightarrow> afterKeyword ks line)"

text \<open>\<open>line.match(pattern)\<close>: groups 2 and 4 when the line matches.\<close>

definition matchPattern :: "jsstring \<Rightarrow> (jsstring option \<times> jsstring option) option" where
  "matchPattern line =
    (case Option.bind (afterMarker line) (restGroup 1) of
       Some m2 \<Rightarrow> Some (Some m2, None)
     | None \<Rightarrow>
        (case Option.bind (afterKeyword keywordList line) (restGroup 0) of
           Some m4 \<Rightarrow> Some (None, Some m4)
         | None \<Rightarrow> None))"

text \<open>\<open>a || b\<close> on values that are a string or \<open>undefined\<close>/\<open>null\<close>: the empty
  string is falsy.\<close>

definition orElse :: "jsstring option \<Rightarrow> jsstring option \<Rightarrow> jsstring option" where
  "orElse a b = (case a of Some x \<Rightarrow> if x = [] then b else Some x | None \<Rightarrow> b)"

text \<open>\<open>candidate.replace(/^["'\s]+|["'\s]+$/g, "")\<close>.\<close>

definition isQuoteOrSpace :: "jschar \<Rightarrow> bool" where
  "isQuoteOrSpace c \<longleftrightarrow> c = 0x22 \<or> c = 0x27 \<or> isSpace c"

definition stripQuotes :: "jsstring \<Rightarrow> jsstring" where
  "stripQuotes s = rev (dropWhile isQuoteOrSpace (rev (dropWhile isQuoteOrSpace s)))"

definition extractPatternLines :: "comment_body \<Rightarrow> jsstring list" where
  "extractPatternLines container =
    (let txt = safeText (Some (bodyText container))
     in if txt = [] then []
        else (let lines = filter (\<lambda>l. l \<noteq> []) (map trim (splitLines txt))
              in concat (map (\<lambda>line.
                   case matchPattern line of
                     None \<Rightarrow> []
                   | Some (m2, m4) \<Rightarrow>
                      (let candidate = the (orElse (orElse m2 m4) (Some line));
                           cleaned = stripQuotes candidate
                       in if cleaned \<noteq> [] then [cleaned] else [])) lines)))"

text \<open>\<open>/^(?:\+|\-|\s|@@|diff)/m.test(code)\<close>: some line of the text starts like a line
  of a diff.\<close>

definition diffLineStart :: "jsstring \<Rightarrow> bool" where
  "diffLineStart s \<longleftrightarrow>
     (case s of c # r \<Rightarrow> c = 0x2B \<or> c = 0x2D \<or> isSpace c | [] \<Rightarrow> False)
     \<or> startsWith s (js ''@@'') \<or> startsWith s (js ''diff'')"

fun someLineStart :: "bool \<Rightarrow> jsstring \<Rightarrow> bool" where
  "someLineStart b [] = False"
| "someLineStart b (c # cs) =
    ((b \<and> diffLineStart (c # cs)) \<or> someLineStart (isLineTerminator c) cs)"

definition looksLikeDiff :: "jsstring \<Rightarrow> bool" where
  "looksLikeDiff code = someLineStart True code"

text \<open>The cell of a row of a suggested-changes table.\<close>

definition rowCell :: "blob_row \<Rightarrow> jsstring option" where
  "rowCell tr =
    (case tdBlobCodeInner tr of Some t \<Rightarrow> Some t | None \<Rightarrow>
     (case tdDescBlobCodeInner tr of Some t \<Rightarrow> Some t | None \<Rightarrow>
      (case tdBlobCode tr of Some t \<Rightarrow> Some t | None \<Rightarrow>
       (case tdLastChild tr of Some t \<Rightarrow> Some t | None \<Rightarrow>
        (if tds tr = [] then None else Some (tds tr ! (length (tds tr) - 1)))))))"

definition rowLine :: "blob_row \<Rightarrow> jsstring list" where
  "rowLine tr =
    (let txt = safeText (rowCell tr)
     in if txt = [] then []
        else if hasDeletion tr then [js ''- '' @ txt]
        else if hasAddition tr then [js ''+ '' @ txt]
        else [js ''  '' @ txt])"

definition extractSuggestedChangeBlocks :: "comment_body \<Rightarrow> jsstring list" where
  "extractSuggestedChangeBlocks container =
    (let fromDetails = concat (map (\<lambda>det.
           let summaryText = toLowerCase (safeText (summaryEl det))
           in if includesStr summaryText (js ''suggested change'')
                 \<or> includesStr summaryText (js ''suggestion'')
              then (let code = safeText (codeEl det)
                    in if code \<noteq> [] then [js ''Suggested change:\<newline>'' @ code] else [])
              else []) (detailsBlocks container));
         fromTables = concat (map (\<lambda>table.
           let diff = trim (join (js ''\<newline>'') (concat (map rowLine table)))
           in if diff \<noteq> [] then [js ''Suggested diff:\<newline>'' @ diff] else [])
           (blobTables container));
         fromPre = concat (map (\<lambda>pre.
           let code = safeText (Some pre)
           in if code \<noteq> [] \<and> looksLikeDiff code then [js ''Suggested diff:\<newline>'' @ code]
              else []) (preBlocks container))
     in fromDetails @ fromTables @ fromPre)"

definition extractPrimarySuggestedChange :: "comment_root \<Rightarrow> jsstring option" where
  "extractPrimarySuggestedChange commentRoot =
    (case body commentRoot of
       None \<Rightarrow> None
     | Some b \<Rightarrow>
        (let changeBlocks = extractSuggestedChangeBlocks b
         in if length changeBlocks > 0 then Some (changeBlocks ! 0)
            else (let preText = safeText (case preBlocks b of p # ps \<Rightarrow> Some p | [] \<Rightarrow> None)
                  in if preText \<noteq> [] then Some preText
                     else (let codeText = safeText (firstCode b)
                           in if codeText \<noteq> [] then Some codeText else None))))"

text \<open>\<open>dedupe\<close>: the loop over the array, with the set of keys seen so far and the output
  built so far.\<close>

fun dedupeLoop :: "jsstring list \<Rightarrow> jsstring list \<Rightarrow> jsstring list \<Rightarrow> jsstring list" where
  "dedupeLoop [] seen out = out"
| "dedupeLoop (s # arr) seen out =
    (let key = toLowerCase s
     in if key \<in> set seen then dedupeLoop arr seen out
        else dedupeLoop arr (seen @ [key]) (out @ [s]))"

definition dedupe :: "jsstring list \<Rightarrow> jsstring list" where
  "dedupe arr = dedupeLoop arr [] []"

text \<open>\<open>text.replace(/\s+/g, " ")\<close>: every maximal run of white space becomes one
  space.\<close>

fun collapseFrom :: "bool \<Rightarrow> jsstring \<Rightarrow> jsstring" where
  "collapseFrom inRun [] = []"
| "collapseFrom inRun (c # cs) =
    (if isSpace c then (if inRun then collapseFrom True cs else 0x20 # collapseFrom True cs)
     else c # collapseFrom False cs)"

definition collapseSpaces :: "jsstring \<Rightarrow> jsstring" where
  "collapseSpaces s = collapseFrom False s"

text \<open>\<open>t.indexOf(ch, from)\<close>: the first index at or after \<open>from\<close>, or \<open>-1\<close>.\<close>

function indexOfFrom :: "jsstring \<Rightarrow> jschar \<Rightarrow> nat \<Rightarrow> int" where
  "indexOfFrom t ch i = (if i < length t
                          then (if t ! i = ch then int i else indexOfFrom t ch (Suc i))
                          else - 1)"
  by pat_completeness auto
termination
  by (relation "measure (\<lambda>(t, ch, i). length t - i)") auto

text \<open>\<open>summarize(text)\<close> with the default \<open>maxLen = 140\<close>, the only way it is
  called; the ellipsis is the single code unit U+2026.\<close>

definition summarize :: "jsstring \<Rightarrow> jsstring" where
  "summarize txt =
    (let maxLen = 140;
         t = trim (collapseSpaces txt)
     in if length t \<le> maxLen then t
        else (let sentenceEnd = indexOfFrom t 0x2E 60
              in if sentenceEnd > 0 \<and> sentenceEnd < int maxLen
                 then take (nat (sentenceEnd + 1)) t
                 else take (maxLen - 1) t @ [0x2026]))"

definition extractSuggestionsFromComment :: "comment_root \<Rightarrow> jsstring list" where
  "extractSuggestionsFromComment commentRoot =
    (case body commentRoot of
       None \<Rightarrow> []
     | Some b \<Rightarrow>
        (let liItems = extractListItems b;
             patternLines = extractPatternLines b;
             changeBlocks = extractSuggestedChangeBlocks b
         in dedupe (liItems @ patternLines @ changeBlocks)))"

section \<open>Extraction orchestrator\<close>

text \<open>
  A suggestion record. The spread \<open>...findLineRangeInFrame(frame)\<close> puts the two
  fields of the line range into the context, from where they are copied; the record
  therefore extends the line range. \<open>id'\<close> is the field \<open>id\<close>.
\<close>

record suggestion = line_range +
  id' :: jsstring
  "text" :: jsstring
  summary :: jsstring
  sourceUrl :: jsstring
  isCopilot :: bool
  filePath :: "jsstring option"
  codeMentioned :: "jsstring option"
  reviewText :: "jsstring option"
  suggestedChange :: "jsstring option"

text \<open>The document: \<open>location.href\<close> and the result of
  \<open>document.querySelectorAll('turbo-frame[id^="review-thread-or-comment-id-"]')\<close>.\<close>

record page =
  locationHref :: jsstring
  frames :: "turbo_frame list"

definition findCommentRootsInTurboFrame :: "turbo_frame \<Rightarrow> comment_root list" where
  "findCommentRootsInTurboFrame frame = filter hasBodyLike (candidates frame)"

definition frameId :: "turbo_frame \<Rightarrow> jsstring" where
  "frameId frame = (if frameIdAttr frame \<noteq> [] then frameIdAttr frame
                    else js ''frame-'' @ hashString (take 512 (outerHTML frame)))"

text \<open>The template \<open>`${frameId}:${idx}:${i}:${hashString(text)}`\<close>.\<close>

definition makeId :: "jsstring \<Rightarrow> nat \<Rightarrow> nat \<Rightarrow> jsstring \<Rightarrow> jsstring" where
  "makeId fid idx i txt =
     fid @ js '':'' @ showNat idx @ js '':'' @ showNat i @ js '':'' @ hashString txt"

definition makeSuggestion ::
  "jsstring \<Rightarrow> turbo_frame \<Rightarrow> comment_root \<Rightarrow> nat \<Rightarrow> nat \<Rightarrow> jsstring \<Rightarrow> suggestion" where
  "makeSuggestion href frame commentRoot idx i txt =
    (let copilot = isCopilotAuthor commentRoot;
         anchor = getAnchorUrlForComment href commentRoot;
         range = findLineRangeInFrame frame;
         ctxFilePath = findFilePathInFrame frame;
         ctxCodeMentioned = findCodeMentionedInFrame frame;
         ctxReviewText = extractReviewTextOnly commentRoot;
         ctxSuggestedChange = extractPrimarySuggestedChange commentRoot
     in \<lparr> lineStart = lineStart range, lineEnd = lineEnd range,
          id' = makeId (frameId frame) idx i txt,
          text = txt,
          summary = summarize (the (orElse ctxReviewText (Some txt))),
          sourceUrl = anchor,
          isCopilot = copilot,
          filePath = orElse ctxFilePath None,
          codeMentioned = ctxCodeMentioned,
          reviewText = ctxReviewText,
          suggestedChange = ctxSuggestedChange \<rparr>)"

text \<open>The list \<open>all\<close> at the end of the two nested loops.\<close>

definition allCandidates :: "page \<Rightarrow> suggestion list" where
  "allCandidates pg =
     concat (map (\<lambda>frame.
       concat (map (\<lambda>(idx, commentRoot).
         map (\<lambda>(i, txt). makeSuggestion (locationHref pg) frame commentRoot idx i txt)
             (enumerate 0 (extractSuggestionsFromComment commentRoot)))
         (enumerate 0 (findCommentRootsInTurboFrame frame))))
       (frames pg))"

definition extractAllSuggestions :: "page \<Rightarrow> suggestion list" where
  "extractAllSuggestions pg =
    (let all = allCandidates pg;
         hasCopilot = list_ex isCopilot all
     in if hasCopilot then filter isCopilot all else all)"

section \<open>JSON\<close>

text \<open>
  The values that \<open>JSON.stringify\<close> writes and \<open>JSON.parse\<close> reads. An object is the
  list of its members in the order of the text. Numbers are integers: the builders write
  line numbers only, and the parser below rejects a number with a fraction or an exponent,
  which \<open>JSON.parse\<close> would read as a double.
\<close>

datatype json =
    JNull
  | JBool bool
  | JNum int
  | JStr jsstring
  | JArr "json list"
  | JObj "(jsstring \<times> json) list"

text \<open>
  \<open>JSON.stringify\<close>: a string is quoted with the short escapes, four hexadecimal digits
  for the other control characters and for a surrogate without its partner, and every
  other code unit as it is.
\<close>

definition hex4 :: "jschar \<Rightarrow> jsstring" where
  "hex4 c = [digitChar (unat c div 4096), digitChar (unat c div 256 mod 16),
             digitChar (unat c div 16 mod 16), digitChar (unat c mod 16)]"

definition isSurrogate :: "jschar \<Rightarrow> bool" where
  "isSurrogate c \<longleftrightarrow> 0xD800 \<le> c \<and> c \<le> 0xDFFF"

definition escapeUnit :: "jschar \<Rightarrow> jsstring" where
  "escapeUnit c =
    (if c = 0x08 then [0x5C, 0x62]
     else if c = 0x09 then [0x5C, 0x74]
     else if c = 0x0A then [0x5C, 0x6E]
     else if c = 0x0C then [0x5C, 0x66]
     else if c = 0x0D then [0x5C, 0x72]
     else if c = 0x22 then [0x5C, 0x22]
     else if c = 0x5C then [0x5C, 0x5C]
     else if c < 0x20 \<or> isSurrogate c then 0x5C # 0x75 # hex4 c
     else [c])"

fun escapeAll :: "jsstring \<Rightarrow> jsstring" where
  "escapeAll [] = []"
| "escapeAll [c] = escapeUnit c"
| "escapeAll (c # d # cs) =
    (if 0xD800 \<le> c \<and> c \<le> 0xDBFF \<and> 0xDC00 \<le> d \<and> d \<le> 0xDFFF
     then c # d # escapeAll cs
     else escapeUnit c @ escapeAll (d # cs))"

definition quoteJSON :: "jsstring \<Rightarrow> jsstring" where
  "quoteJSON s = 0x22 # escapeAll s @ [0x22]"

text \<open>
  \<open>JSON.stringify(value, null, k)\<close> at nesting level \<open>lvl\<close>: with \<open>k = 0\<close> the
  compact form, else every element and member on a line of its own, indented by \<open>k\<close>
  spaces per level, and a space after the colon.
\<close>

definition newlineIndent :: "nat \<Rightarrow> nat \<Rightarrow> jsstring" where
  "newlineIndent k lvl = (if k = 0 then [] else 0x0A # replicate (k * lvl) 0x20)"

fun serialize :: "nat \<Rightarrow> nat \<Rightarrow> json \<Rightarrow> jsstring" where
  "serialize k lvl JNull = js ''null''"
| "serialize k lvl (JBool b) = (if b then js ''true'' else js ''false'')"
| "serialize k lvl (JNum n) = showInt n"
| "serialize k lvl (JStr s) = quoteJSON s"
| "serialize k lvl (JArr xs) =
    (if xs = [] then js ''[]''
     else js ''['' @ newlineIndent k (Suc lvl)
          @ join (js '','' @ newlineIndent k (Suc lvl)) (map (serialize k (Suc lvl)) xs)
          @ newlineIndent k lvl @ js '']'')"
| "serialize k lvl (JObj ms) =
    (if ms = [] then js ''{}''
     else js ''{'' @ newlineIndent k (Suc lvl)
          @ join (js '','' @ newlineIndent k (Suc lvl))
              (map (\<lambda>m. quoteJSON (fst m) @ js '':'' @ (if k = 0 then [] else js '' '')
                          @ serialize k (Suc lvl) (snd m)) ms)
          @ newlineIndent k lvl @ js ''}'')"

text \<open>
  \<open>JSON.parse\<close>, by recursive descent. \<open>unquote\<close> reads a string after its opening
  quote; \<open>parseValue\<close>, \<open>parseElements\<close> and \<open>parseMembers\<close> take the number of
  nested calls they may still make, and \<open>parseJSON\<close> gives them more than any text of
  that length can use: of two calls in a row at least one consumes a character.
\<close>

definition isJsonSpace :: "jschar \<Rightarrow> bool" where
  "isJsonSpace c \<longleftrightarrow> c = 0x20 \<or> c = 0x09 \<or> c = 0x0A \<or> c = 0x0D"

definition skipSpace :: "jsstring \<Rightarrow> jsstring" where
  "skipSpace s = dropWhile isJsonSpace s"

definition hexValue :: "jschar \<Rightarrow> nat option" where
  "hexValue c =
    (if 0x30 \<le> c \<and> c \<le> 0x39 then Some (unat c - 48)
     else if 0x61 \<le> c \<and> c \<le> 0x66 then Some (unat c - 87)
     else if 0x41 \<le> c \<and> c \<le> 0x46 then Some (unat c - 55)
     else None)"

definition unescapeAt :: "jsstring \<Rightarrow> (jschar \<times> jsstring) option" where
  "unescapeAt s =
    (case s of
       [] \<Rightarrow> None
     | e # r \<Rightarrow>
        if e = 0x22 \<or> e = 0x5C \<or> e = 0x2F then Some (e, r)
        else if e = 0x62 then Some (0x08, r)
        else if e = 0x66 then Some (0x0C, r)
        else if e = 0x6E then Some (0x0A, r)
        else if e = 0x72 then Some (0x0D, r)
        else if e = 0x74 then Some (0x09, r)
        else if e = 0x75 then
          (case r of
             a # b # c # d # r' \<Rightarrow>
               (case (hexValue a, hexValue b, hexValue c, hexValue d) of
                  (Some h3, Some h2, Some h1, Some h0) \<Rightarrow>
                     Some (of_nat (((h3 * 16 + h2) * 16 + h1) * 16 + h0), r')
                | _ \<Rightarrow> None)
           | _ \<Rightarrow> None)
        else None)"

function unquote :: "jsstring \<Rightarrow> (jsstring \<times> jsstring) option" where
  "unquote [] = None"
| "unquote (c # cs) =
    (if c = 0x22 then Some ([], cs)
     else if c < 0x20 then None
     else if c = 0x5C then
       (case unescapeAt cs of
          None \<Rightarrow> None
        | Some (x, r) \<Rightarrow>
           (case unquote r of None \<Rightarrow> None | Some (s, rest) \<Rightarrow> Some (x # s, rest)))
     else (case unquote cs of None \<Rightarrow> None | Some (s, rest) \<Rightarrow> Some (c # s, rest)))"
  by pat_completeness auto
termination
  by (relation "measure length")
     (auto simp: unescapeAt_def split: list.splits if_splits option.splits)

definition parseNumber :: "jsstring \<Rightarrow> (json \<times> jsstring) option" where
  "parseNumber s =
    (let neg = (case s of c # r \<Rightarrow> c = 0x2D | [] \<Rightarrow> False);
         u = (if neg then tl s else s)
     in case u of
          [] \<Rightarrow> None
        | d # r \<Rightarrow>
           if \<not> isDigit d then None
           else (let ds = (if d = 0x30 then [d] else takeWhile isDigit u);
                     rest = drop (length ds) u
                 in if (case rest of c # r' \<Rightarrow> isDigit c \<or> c = 0x2E \<or> c = 0x65 \<or> c = 0x45
                                   | [] \<Rightarrow> False)
                    then None
                    else Some (JNum (if neg then - int (digitsValue ds)
                                     else int (digitsValue ds)), rest)))"

fun parseValue :: "nat \<Rightarrow> jsstring \<Rightarrow> (json \<times> jsstring) option"
and parseElements :: "nat \<Rightarrow> jsstring \<Rightarrow> (json list \<times> jsstring) option"
and parseMembers :: "nat \<Rightarrow> jsstring \<Rightarrow> ((jsstring \<times> json) list \<times> jsstring) option"
where
  "parseValue 0 s = None"
| "parseValue (Suc n) s =
    (case s of
       [] \<Rightarrow> None
     | c # cs \<Rightarrow>
        if c = 0x22 then map_option (\<lambda>(x, r). (JStr x, r)) (unquote cs)
        else if c = 0x5B then
          (case skipSpace cs of
             [] \<Rightarrow> None
           | d # ds \<Rightarrow> if d = 0x5D then Some (JArr [], ds)
                       else map_option (\<lambda>(xs, r). (JArr xs, r)) (parseElements n (d # ds)))
        else if c = 0x7B then
          (case skipSpace cs of
             [] \<Rightarrow> None
           | d # ds \<Rightarrow> if d = 0x7D then Some (JObj [], ds)
                       else map_option (\<lambda>(ms, r). (JObj ms, r)) (parseMembers n (d # ds)))
        else if startsWith s (js ''null'') then Some (JNull, drop 4 s)
        else if startsWith s (js ''true'') then Some (JBool True, drop 4 s)
        else if startsWith s (js ''false'') then Some (JBool False, drop 5 s)
        else parseNumber s)"
| "parseElements 0 s = None"
| "parseElements (Suc n) s =
    (case parseValue n s of
       None \<Rightarrow> None
     | Some (v, r) \<Rightarrow>
        (case skipSpace r of
           [] \<Rightarrow> None
         | c # cs \<Rightarrow>
            if c = 0x2C then
              (case parseElements n (skipSpace cs) of
                 None \<Rightarrow> None
               | Some (vs, r') \<Rightarrow> Some (v # vs, r'))
            else if c = 0x5D then Some ([v], cs)
            else None))"
| "parseMembers 0 s = None"
| "parseMembers (Suc n) s =
    (case s of
       [] \<Rightarrow> None
     | q # qs \<Rightarrow>
        if q \<noteq> 0x22 then None
        else (case unquote qs of
                None \<Rightarrow> None
              | Some (key, r0) \<Rightarrow>
                 (case skipSpace r0 of
                    [] \<Rightarrow> None
                  | c0 # r1 \<Rightarrow>
                     if c0 \<noteq> 0x3A then None
                     else (case parseValue n (skipSpace r1) of
                             None \<Rightarrow> None
                           | Some (v, r) \<Rightarrow>
                              (case skipSpace r of
                                 [] \<Rightarrow> None
                               | c # cs \<Rightarrow>
                                  if c = 0x2C then
                                    (case parseMembers n (skipSpace cs) of
                                       None \<Rightarrow> None
                                     | Some (ms, r') \<Rightarrow> Some ((key, v) # ms, r'))
                                  else if c = 0x7D then Some ([(key, v)], cs)
                                  else None)))))"

definition parseJSON :: "jsstring \<Rightarrow> json option" where
  "parseJSON s =
    (case parseValue (2 * length s + 2) (skipSpace s) of
       None \<Rightarrow> None
     | Some (v, r) \<Rightarrow> if skipSpace r = [] then Some v else None)"

text \<open>For the round trip: the number of nested calls that reading a value back takes, what
  may follow a number, how a serialised value starts, and the text of one member.\<close>

fun need :: "json \<Rightarrow> nat" where
  "need (JArr xs) = Suc (sum_list (map (\<lambda>x. Suc (need x)) xs))"
| "need (JObj ms) = Suc (sum_list (map (\<lambda>m. Suc (need (snd m))) ms))"
| "need v = 0"

definition okAfterNumber :: "jsstring \<Rightarrow> bool" where
  "okAfterNumber rest \<longleftrightarrow>
     (case rest of c # r \<Rightarrow> \<not> (isDigit c \<or> c = 0x2E \<or> c = 0x65 \<or> c = 0x45) | [] \<Rightarrow> True)"

definition valueStart :: "jschar \<Rightarrow> bool" where
  "valueStart c \<longleftrightarrow> \<not> isJsonSpace c \<and> c \<noteq> 0x5D \<and> c \<noteq> 0x7D"

definition memberText :: "nat \<Rightarrow> nat \<Rightarrow> jsstring \<times> json \<Rightarrow> jsstring" where
  "memberText k l1 m = quoteJSON (fst m) @ js '':'' @ (if k = 0 then [] else js '' '')
                         @ serialize k l1 (snd m)"

section \<open>Output builders\<close>

text \<open>Truthiness of a number or \<open>null\<close>, and of a string or \<open>null\<close>.\<close>

definition truthyNum :: "int option \<Rightarrow> bool" where
  "truthyNum n = (case n of Some v \<Rightarrow> v \<noteq> 0 | None \<Rightarrow> False)"

definition truthyStr :: "jsstring option \<Rightarrow> bool" where
  "truthyStr v = (case v of Some x \<Rightarrow> x \<noteq> [] | None \<Rightarrow> False)"

definition linesLabel :: "suggestion \<Rightarrow> jsstring option" where
  "linesLabel s =
    (if truthyNum (lineStart s) \<and> truthyNum (lineEnd s)
     then (if lineStart s = lineEnd s then Some (js ''L'' @ showInt (the (lineStart s)))
           else Some (js ''L'' @ showInt (the (lineStart s)) @ js ''-L''
                      @ showInt (the (lineEnd s))))
     else None)"

definition fileLine :: "suggestion \<Rightarrow> jsstring option" where
  "fileLine s =
    (if truthyStr (filePath s) \<or> linesLabel s \<noteq> None
     then Some (js ''File: ''
                @ (if truthyStr (filePath s) then the (filePath s) else js ''unknown'')
                @ (case linesLabel s of Some l \<Rightarrow> js '' ('' @ l @ js '')'' | None \<Rightarrow> []))
     else None)"

definition suggestionBlock :: "suggestion \<Rightarrow> jsstring option" where
  "suggestionBlock s =
    (if truthyStr (suggestedChange s)
     then (if startsWith (trim (the (suggestedChange s))) (js ''Suggested'')
           then suggestedChange s
           else Some (js ''Suggested change:\<newline>'' @ the (suggestedChange s)))
     else if text s \<noteq> [] \<and> text s \<noteq> summary s
     then (if startsWith (trim (text s)) (js ''Suggested'')
           then Some (text s)
           else Some (js ''Suggested change:\<newline>'' @ text s))
     else None)"

text \<open>\<open>.filter(Boolean)\<close> on an array of strings and \<open>null\<close>s.\<close>

definition filterBoolean :: "jsstring option list \<Rightarrow> jsstring list" where
  "filterBoolean xs = concat (map (\<lambda>x. if truthyStr x then [the x] else []) xs)"

definition reviewSection :: "suggestion \<Rightarrow> jsstring option" where
  "reviewSection s = (if truthyStr (reviewText s)
                      then Some (js ''Review:\<newline>'' @ the (reviewText s)) else None)"

definition codeSection :: "suggestion \<Rightarrow> jsstring option" where
  "codeSection s = (if truthyStr (codeMentioned s)
                    then Some (js ''Code mentioned:\<newline>'' @ the (codeMentioned s)) else None)"

definition itemHeader :: "nat \<Rightarrow> suggestion \<Rightarrow> jsstring" where
  "itemHeader idx s = js ''#'' @ showNat (idx + 1) @ js '' '' @ summary s"

definition itemBlock :: "nat \<Rightarrow> suggestion \<Rightarrow> jsstring" where
  "itemBlock idx s =
     join (js ''\<newline>'')
       (filterBoolean [Some (itemHeader idx s), fileLine s, codeSection s, reviewSection s,
                       suggestionBlock s, Some []])"

definition promptHeader :: "jsstring \<Rightarrow> jsstring" where
  "promptHeader prUrl = join (js ''\<newline>'')
     [js ''Task: Apply the following GitHub Copilot review suggestions to the codebase in this PR.'',
      js ''PR: '' @ prUrl,
      js ''Instructions:'',
      js ''- For each item, implement the change described.'',
      js ''- If multiple files are impacted, update all relevant locations.'',
      js ''- Preserve existing behavior unless a change is explicitly requested.'',
      []]"

definition buildPrompt :: "jsstring \<Rightarrow> suggestion list \<Rightarrow> jsstring" where
  "buildPrompt prUrl items =
     promptHeader prUrl @ js ''\<newline>''
       @ join (js ''\<newline>'') (map (\<lambda>(idx, s). itemBlock idx s) (enumerate 0 items))"

text \<open>\<open>buildJSON\<close>: \<open>s.filePath || null\<close> and \<open>s.lineStart ?? null\<close> as JSON values.\<close>

definition stringOrNull :: "jsstring option \<Rightarrow> json" where
  "stringOrNull v = (case orElse v None of Some x \<Rightarrow> JStr x | None \<Rightarrow> JNull)"

definition numberOrNull :: "int option \<Rightarrow> json" where
  "numberOrNull n = (case n of Some i \<Rightarrow> JNum i | None \<Rightarrow> JNull)"

definition normalized :: "suggestion \<Rightarrow> json" where
  "normalized s = JObj
     [(js ''id'', JStr (id' s)),
      (js ''filePath'', stringOrNull (filePath s)),
      (js ''lineStart'', numberOrNull (lineStart s)),
      (js ''lineEnd'', numberOrNull (lineEnd s)),
      (js ''summary'', JStr (summary s)),
      (js ''codeMentioned'', stringOrNull (codeMentioned s)),
      (js ''reviewText'', stringOrNull (reviewText s)),
      (js ''suggestedChange'', stringOrNull (suggestedChange s)),
      (js ''sourceUrl'', JStr (sourceUrl s))]"

definition buildJSON :: "jsstring \<Rightarrow> suggestion list \<Rightarrow> jsstring" where
  "buildJSON prUrl items =
     serialize 2 0 (JObj [(js ''pr'', JStr prUrl),
                          (js ''suggestions'', JArr (map normalized items))])"

section \<open>Selection state store\<close>

text \<open>
  What a call of the platform can throw here: \<open>localStorage\<close> refuses access or is
  full, \<open>JSON.parse\<close> rejects the text. A call either throws or returns: its result is
  an error or a value.
\<close>

datatype js_error = SecurityError | QuotaExceededError | SyntaxError

text \<open>
  \<open>localStorage\<close> as the store sees it: the entries, and for each call whether it
  throws (reading a key, writing a value under a key).
\<close>

record local_storage =
  entries :: "jsstring \<Rightarrow> jsstring option"
  getItemThrows :: "jsstring \<Rightarrow> js_error option"
  setItemThrows :: "jsstring \<Rightarrow> jsstring \<Rightarrow> js_error option"

definition getItem :: "local_storage \<Rightarrow> jsstring \<Rightarrow> js_error + jsstring option" where
  "getItem ls key = (case getItemThrows ls key of
                       Some e \<Rightarrow> Inl e
                     | None \<Rightarrow> Inr (entries ls key))"

definition setItem :: "local_storage \<Rightarrow> jsstring \<Rightarrow> jsstring \<Rightarrow> js_error + local_storage" where
  "setItem ls key v = (case setItemThrows ls key v of
                         Some e \<Rightarrow> Inl e
                       | None \<Rightarrow> Inr (ls \<lparr> entries := (entries ls)(key \<mapsto> v) \<rparr>))"

text \<open>\<open>JSON.parse\<close> as a call that throws on a text it cannot read. A text with a
  fraction or an exponent in a number counts as unreadable here; the store answers a throw
  of \<open>JSON.parse\<close> and a value that is not an array in the same way, with the empty
  set.\<close>

definition jsonParse :: "jsstring \<Rightarrow> js_error + json" where
  "jsonParse raw = (case parseJSON raw of None \<Rightarrow> Inl SyntaxError | Some v \<Rightarrow> Inr v)"

text \<open>\<open>try { ... } catch { ... }\<close>.\<close>

definition tryCatch :: "js_error + 'a \<Rightarrow> (js_error \<Rightarrow> js_error + 'a) \<Rightarrow> js_error + 'a" where
  "tryCatch attempt handler = (case attempt of Inl e \<Rightarrow> handler e | Inr v \<Rightarrow> Inr v)"

text \<open>
  A \<open>Set\<close> of parsed values, as the list of its elements in insertion order. Two
  elements are the same value when they are equal primitives; the arrays and objects that
  \<open>JSON.parse\<close> creates are all different from each other.
\<close>

definition sameValueZero :: "json \<Rightarrow> json \<Rightarrow> bool" where
  "sameValueZero a b \<longleftrightarrow>
     a = b \<and> (case a of JArr xs \<Rightarrow> False | JObj ms \<Rightarrow> False | _ \<Rightarrow> True)"

definition newSet :: "json list \<Rightarrow> json list" where
  "newSet arr = foldl (\<lambda>acc x. if list_ex (\<lambda>y. sameValueZero y x) acc then acc else acc @ [x])
                      [] arr"

record location =
  origin :: jsstring
  pathname :: jsstring

definition currentPRKey :: "location \<Rightarrow> jsstring" where
  "currentPRKey loc = js ''copilot-review-to-prompt:'' @ origin loc @ pathname loc"

definition getDeselectedSet :: "location \<Rightarrow> local_storage \<Rightarrow> js_error + json list" where
  "getDeselectedSet loc ls =
     tryCatch
       (case getItem ls (currentPRKey loc @ js '':deselected'') of
          Inl e \<Rightarrow> Inl e
        | Inr raw \<Rightarrow>
           if \<not> truthyStr raw then Inr (newSet [])
           else (case jsonParse (the raw) of
                   Inl e \<Rightarrow> Inl e
                 | Inr arr \<Rightarrow> Inr (newSet (case arr of JArr xs \<Rightarrow> xs | _ \<Rightarrow> []))))
       (\<lambda>e. Inr (newSet []))"

definition saveDeselectedSet ::
  "location \<Rightarrow> local_storage \<Rightarrow> json list \<Rightarrow> js_error + local_storage" where
  "saveDeselectedSet loc ls ids =
     tryCatch
       (setItem ls (currentPRKey loc @ js '':deselected'') (serialize 0 0 (JArr ids)))
       (\<lambda>e. Inr ls)"

definition getIgnoredSet :: "location \<Rightarrow> local_storage \<Rightarrow> js_error + json list" where
  "getIgnoredSet loc ls =
     tryCatch
       (case getItem ls (currentPRKey loc @ js '':ignored'') of
          Inl e \<Rightarrow> Inl e
        | Inr raw \<Rightarrow>
           if \<not> truthyStr raw then Inr (newSet [])
           else (case jsonParse (the raw) of
                   Inl e \<Rightarrow> Inl e
                 | Inr arr \<Rightarrow> Inr (newSet (case arr of JArr xs \<Rightarrow> xs | _ \<Rightarrow> []))))
       (\<lambda>e. Inr (newSet []))"

definition saveIgnoredSet ::
  "location \<Rightarrow> local_storage \<Rightarrow> json list \<Rightarrow> js_error + local_storage" where
  "saveIgnoredSet loc ls ids =
     tryCatch
       (setItem ls (currentPRKey loc @ js '':ignored'') (serialize 0 0 (JArr ids)))
       (\<lambda>e. Inr ls)"

section \<open>Notions of the specification\<close>

text \<open>What the three structured strategies produce for a comment, in the order in which
  the segmenter concatenates them; a comment without a body has none.\<close>

definition structuredItems :: "comment_root \<Rightarrow> jsstring list" where
  "structuredItems commentRoot =
    (case body commentRoot of
       None \<Rightarrow> []
     | Some b \<Rightarrow> extractListItems b @ extractPatternLines b @ extractSuggestedChangeBlocks b)"

text \<open>Removing duplicates by a key, keeping the first occurrence of each key in first-seen
  order: the head stays, and what has its key is removed from the rest.\<close>

primrec dedupFirstSeen :: "('a \<Rightarrow> 'k) \<Rightarrow> 'a list \<Rightarrow> 'a list" where
  "dedupFirstSeen key [] = []"
| "dedupFirstSeen key (x # xs) = x # filter (\<lambda>y. key y \<noteq> key x) (dedupFirstSeen key xs)"

text \<open>The deduplication key of the specification: the lower-cased trimmed text.\<close>

definition dedupKey :: "jsstring \<Rightarrow> jsstring" where
  "dedupKey s = toLowerCase (trim s)"

text \<open>A string under the label of a suggested change: left as it is when its trimmed
  form starts with \<open>Suggested\<close>, else prefixed with the label and a line break.\<close>

definition withChangeLabel :: "jsstring \<Rightarrow> jsstring" where
  "withChangeLabel x = (if startsWith (trim x) (js ''Suggested'') then x
                        else js ''Suggested change:\<newline>'' @ x)"

text \<open>The text that a summary is made from: the review text when there is one, else the
  suggestion text.\<close>

definition summarySource :: "suggestion \<Rightarrow> jsstring" where
  "summarySource s = (case reviewText s of Some r \<Rightarrow> r | None \<Rightarrow> text s)"

text \<open>The places of the candidates of a page, in the order of the candidate list: thread
  id, comment index, item index, and the text found there.\<close>

definition places :: "page \<Rightarrow> (jsstring \<times> nat \<times> nat \<times> jsstring) list" where
  "places pg =
     concat (map (\<lambda>frame.
       concat (map (\<lambda>(idx, commentRoot).
         map (\<lambda>(i, tx). (frameId frame, idx, i, tx))
             (enumerate 0 (extractSuggestionsFromComment commentRoot)))
         (enumerate 0 (findCommentRootsInTurboFrame frame))))
       (frames pg))"

text \<open>Reading a property of a parsed value: of the members with that key the last one
  counts; anything but an object has no properties.\<close>

fun getProp :: "json \<Rightarrow> jsstring \<Rightarrow> json option" where
  "getProp (JObj ms) key = map_of (rev ms) key"
| "getProp v key = None"

section \<open>Example inputs\<close>

definition emptyBody :: comment_body where
  "emptyBody = \<lparr> bodyText = [], listItems = [], detailsBlocks = [], blobTables = [],
                 preBlocks = [], firstCode = None \<rparr>"

definition plainBody :: comment_body where
  "plainBody = emptyBody \<lparr> bodyText :=
     js ''The label elements at lines 67 and 68 create nested labels, which is invalid HTML.'' \<rparr>"

text \<open>A comment of the reviewer written as one plain paragraph.\<close>

definition plainComment :: comment_root where
  "plainComment = \<lparr> hasBodyLike = True, body = Some plainBody,
     proseText = Some (bodyText plainBody), authorLink = Some (js ''Copilot''),
     authorHref = Some (js ''/apps/copilot-pull-request-reviewer''), botBadge = Some (js ''AI''),
     permalink = Some (js ''https://github.com/o/r/pull/1#discussion_r1'') \<rparr>"

definition listBody :: comment_body where
  "listBody = emptyBody \<lparr>
     bodyText := js ''Use const instead of let\<newline>- use CONST instead of let\<newline>Fix: \"Remove the unused import\"'',
     listItems := [js ''Use const instead of let'', js '' Remove the unused import ''] \<rparr>"

text \<open>A comment of the reviewer with list items and pattern lines.\<close>

definition listComment :: comment_root where
  "listComment = \<lparr> hasBodyLike = True, body = Some listBody,
     proseText = Some (bodyText listBody), authorLink = Some (js ''Copilot''),
     authorHref = Some (js ''/apps/copilot-pull-request-reviewer''), botBadge = Some (js ''AI''),
     permalink = Some (js ''https://github.com/o/r/pull/1#discussion_r2'') \<rparr>"

text \<open>A comment of a human reviewer.\<close>

definition humanComment :: comment_root where
  "humanComment = \<lparr> hasBodyLike = True,
     body = Some (emptyBody \<lparr> bodyText := js ''- please add a test'',
                              listItems := [js ''please add a test''] \<rparr>),
     proseText = Some (js ''- please add a test''), authorLink = Some (js ''octocat''),
     authorHref = Some (js ''/octocat''), botBadge = None, permalink = None \<rparr>"

definition examplePage :: page where
  "examplePage = \<lparr> locationHref = js ''https://github.com/o/r/pull/1'',
     frames = [mixedLinesFrame \<lparr> candidates := [humanComment, listComment] \<rparr>,
               emptyFrame \<lparr> frameIdAttr := js ''review-thread-or-comment-id-2'',
                            candidates := [plainComment, humanComment] \<rparr>] \<rparr>"

definition humanPage :: page where
  "humanPage = \<lparr> locationHref = js ''https://github.com/o/r/pull/2'',
     frames = [emptyFrame \<lparr> candidates := [humanComment, humanComment] \<rparr>] \<rparr>"

text \<open>A page with two comments, each a list of one long item that is also the prose of
  the comment: in the first the first full stop from index 60 on is the one inside the file
  name \<open>settings.yaml\<close>, the second has no full stop at all.\<close>

definition longText :: jsstring where
  "longText = js ''Move the hard coded retry limits out of this function and into settings.yaml so that operators can tune them without a redeploy, and document the new keys in the project README''"

definition longTextNoStop :: jsstring where
  "longTextNoStop = js ''Rename the helper so that its name says what it returns and make every caller pass the options object explicitly instead of relying on the module level default value''"

definition longComment :: comment_root where
  "longComment = \<lparr> hasBodyLike = True,
     body = Some (emptyBody \<lparr> bodyText := longText, listItems := [longText] \<rparr>),
     proseText = Some longText, authorLink = Some (js ''Copilot''), authorHref = None,
     botBadge = None, permalink = None \<rparr>"

definition noStopComment :: comment_root where
  "noStopComment = \<lparr> hasBodyLike = True,
     body = Some (emptyBody \<lparr> bodyText := longTextNoStop, listItems := [longTextNoStop] \<rparr>),
     proseText = Some longTextNoStop, authorLink = Some (js ''Copilot''), authorHref = None,
     botBadge = None, permalink = None \<rparr>"

definition longPage :: page where
  "longPage = \<lparr> locationHref = js ''https://github.com/o/r/pull/3'',
     frames = [emptyFrame \<lparr> candidates := [longComment, noStopComment] \<rparr>] \<rparr>"

text \<open>A page in which two threads carry the same \<open>id\<close> attribute.\<close>

definition twinPage :: page where
  "twinPage = \<lparr> locationHref = js ''https://github.com/o/r/pull/4'',
     frames = [emptyFrame \<lparr> candidates := [humanComment] \<rparr>,
               emptyFrame \<lparr> candidates := [humanComment] \<rparr>] \<rparr>"

text \<open>Suggestion records as the prompt builder receives them: one whose text is its own
  summary and that has no suggested change, and one whose suggested change is a diff block
  of the segmenter.\<close>

definition shortSuggestion :: suggestion where
  "shortSuggestion = \<lparr> lineStart = None, lineEnd = None,
     id' = js ''review-thread-or-comment-id-1:0:0:1x2y3z'', text = js ''Use const'',
     summary = js ''Use const'', sourceUrl = js ''https://github.com/o/r/pull/1'',
     isCopilot = True, filePath = None, codeMentioned = None,
     reviewText = Some (js ''Use const''), suggestedChange = None \<rparr>"

definition diffSuggestion :: suggestion where
  "diffSuggestion = shortSuggestion \<lparr> lineStart := Some 3, lineEnd := Some 4,
     filePath := Some (js ''src/app.js''), reviewText := Some (js ''Prefer const here.''),
     summary := js ''Prefer const here.'',
     suggestedChange := Some (js ''Suggested diff:\<newline>- let a = 1\<newline>+ const a = 1'') \<rparr>"

definition codeSuggestion :: suggestion where
  "codeSuggestion = diffSuggestion \<lparr> suggestedChange := Some (js ''const a = 1'') \<rparr>"

definition textSuggestion :: suggestion where
  "textSuggestion = shortSuggestion \<lparr> text := js ''Use const instead of let'',
     reviewText := None \<rparr>"

text \<open>A page address, a storage that refuses every call, and a working storage that holds
  text that is not JSON.\<close>

definition prLocation :: location where
  "prLocation = \<lparr> origin = js ''https://github.com'', pathname = js ''/o/r/pull/1'' \<rparr>"

definition brokenStorage :: local_storage where
  "brokenStorage = \<lparr> entries = (\<lambda>key. None), getItemThrows = (\<lambda>key. Some SecurityError),
                      setItemThrows = (\<lambda>key v. Some QuotaExceededError) \<rparr>"

definition garbledStorage :: local_storage where
  "garbledStorage = \<lparr> entries = (\<lambda>key. Some (js ''[1, 2'')), getItemThrows = (\<lambda>key. None),
                       setItemThrows = (\<lambda>key v. None) \<rparr>"

section \<open>Properties\<close>

declare digitsOf.simps [simp del]

declare indexOfFrom.simps [simp del]

subsection \<open>The line range locator\<close>

lemma addNum_set: "set (addNum n nums) = set nums \<union> set_option n"
  by (cases n) (auto simp: addNum_def)

lemma foldl_addNum_set:
  "set (foldl (\<lambda>nums a. addNum (f a) nums) n0 xs) = set n0 \<union> {n. \<exists>a\<in>set xs. f a = Some n}"
  by (induction xs arbitrary: n0) (auto simp: addNum_set)

lemma foldl_numsFromAnchor_set:
  "set (foldl numsFromAnchor n0 hs)
     = set n0 \<union> {n. \<exists>h\<in>set hs. \<exists>d. matchAnchor h = Some d \<and> parseInt d = Some n}"
  by (induction hs arbitrary: n0) (auto simp: numsFromAnchor_def addNum_set split: option.splits)

text \<open>The merged candidate set is the union of what the four sources contribute.\<close>

lemma collectLineNums_set:
  "set (collectLineNums frame)
     = set (numsFromLineText (specificLineDiv frame) [])
       \<union> {n. \<exists>a\<in>set (dataLineNumbers frame). parseInt a = Some n}
       \<union> {n. \<exists>t\<in>set (blobNums frame). parseInt (safeText (Some t)) = Some n}
       \<union> {n. \<exists>h\<in>set (lineAnchors frame). \<exists>d. matchAnchor h = Some d \<and> parseInt d = Some n}"
  by (simp add: collectLineNums_def Let_def foldl_numsFromAnchor_set foldl_addNum_set)

lemma noLineEvidence_empty:
  assumes "noLineEvidence frame"
  shows "collectLineNums frame = []"
proof -
  from assms have "numsFromLineText (specificLineDiv frame) [] = []"
    by (auto simp: noLineEvidence_def numsFromLineText_def split: option.splits)
  moreover from assms have "{n. \<exists>a\<in>set (dataLineNumbers frame). parseInt a = Some n} = {}"
    by (auto simp: noLineEvidence_def list_all_iff)
  moreover from assms have
    "{n. \<exists>t\<in>set (blobNums frame). parseInt (safeText (Some t)) = Some n} = {}"
    by (auto simp: noLineEvidence_def list_all_iff)
  moreover from assms have
    "{n. \<exists>h\<in>set (lineAnchors frame). \<exists>d. matchAnchor h = Some d \<and> parseInt d = Some n} = {}"
    by (auto simp: noLineEvidence_def list_all_iff)
  ultimately have "set (collectLineNums frame) = {}"
    by (simp add: collectLineNums_set)
  then show ?thesis by simp
qed

lemma sorted_first_Min:
  fixes ys :: "int list"
  assumes "sorted ys" "ys \<noteq> []"
  shows "ys ! 0 = Min (set ys)"
proof (rule Min_eqI [symmetric])
  show "finite (set ys)" by simp
  fix y assume "y \<in> set ys"
  then obtain i where "i < length ys" "ys ! i = y" by (auto simp: in_set_conv_nth)
  with assms show "ys ! 0 \<le> y" using sorted_nth_mono [of ys 0 i] by simp
next
  from assms show "ys ! 0 \<in> set ys" by simp
qed

lemma sorted_last_Max:
  fixes ys :: "int list"
  assumes "sorted ys" "ys \<noteq> []"
  shows "ys ! (length ys - 1) = Max (set ys)"
proof (rule Max_eqI [symmetric])
  show "finite (set ys)" by simp
  fix y assume "y \<in> set ys"
  then obtain i where "i < length ys" "ys ! i = y" by (auto simp: in_set_conv_nth)
  with assms show "y \<le> ys ! (length ys - 1)"
    using sorted_nth_mono [of ys i "length ys - 1"] by auto
next
  from assms show "ys ! (length ys - 1) \<in> set ys" by simp
qed

lemma findLineRange_char:
  "findLineRangeInFrame frame =
     (if collectLineNums frame = [] then \<lparr> lineStart = None, lineEnd = None \<rparr>
      else \<lparr> lineStart = Some (Min (set (collectLineNums frame))),
             lineEnd = Some (Max (set (collectLineNums frame))) \<rparr>)"
proof (cases "collectLineNums frame = []")
  case True
  then show ?thesis by (simp add: findLineRangeInFrame_def)
next
  case False
  then have ne: "sort (collectLineNums frame) \<noteq> []"
    by (metis length_sort length_0_conv)
  have "sort (collectLineNums frame) ! 0 = Min (set (collectLineNums frame))"
    using sorted_first_Min [OF sorted_sort ne] by simp
  moreover have "sort (collectLineNums frame) ! (length (collectLineNums frame) - 1)
       = Max (set (collectLineNums frame))"
    using sorted_last_Max [OF sorted_sort ne] by simp
  ultimately show ?thesis using False by (simp add: findLineRangeInFrame_def Let_def)
qed

text \<open>
  C1. On the line text \<open>Comment on lines +67 to +87\<close>, with no other line-number
  evidence, the expression of \<open>findLineRangeInFrame\<close> does not match: after
  \<open>lines\<close> and the space it wants a digit and finds \<open>+\<close>. The locator returns the
  empty range, where the release notes and the change log of version 1.1.0 promise 67 to
  87. The format \<open>Lines 42-45\<close> is read as 42 to 45.
\<close>

theorem plus_lines_text_not_matched:
  "findLineRangeInFrame plusLinesFrame = \<lparr> lineStart = None, lineEnd = None \<rparr>
   \<and> matchLines (safeText (specificLineDiv plusLinesFrame)) = None
   \<and> findLineRangeInFrame dashLinesFrame = \<lparr> lineStart = Some 42, lineEnd = Some 45 \<rparr>"
  by code_simp

text \<open>
  C5. The line range locator returns both fields absent when the merged candidate set is
  empty, and otherwise both present, the start the minimum and the end the maximum of the
  set; so the start is at most the end whenever both are present, and a thread without any
  line-number evidence yields the empty range.
\<close>

theorem line_range_min_max:
  "findLineRangeInFrame frame =
     (if set (collectLineNums frame) = {} then \<lparr> lineStart = None, lineEnd = None \<rparr>
      else \<lparr> lineStart = Some (Min (set (collectLineNums frame))),
             lineEnd = Some (Max (set (collectLineNums frame))) \<rparr>)
   \<and> ((lineStart (findLineRangeInFrame frame) = None
         \<and> lineEnd (findLineRangeInFrame frame) = None)
      \<or> (\<exists>a b. lineStart (findLineRangeInFrame frame) = Some a
                \<and> lineEnd (findLineRangeInFrame frame) = Some b \<and> a \<le> b))
   \<and> (noLineEvidence frame
        \<longrightarrow> findLineRangeInFrame frame = \<lparr> lineStart = None, lineEnd = None \<rparr>)"
proof (cases "collectLineNums frame = []")
  case True
  then show ?thesis by (simp add: findLineRange_char)
next
  case False
  then have ne: "set (collectLineNums frame) \<noteq> {}" by simp
  have "Min (set (collectLineNums frame)) \<le> Max (set (collectLineNums frame))"
    using ne by (simp add: Min_le_iff)
  moreover have "\<not> noLineEvidence frame"
    using False noLineEvidence_empty by blast
  ultimately show ?thesis using False by (simp add: findLineRange_char)
qed

theorem line_range_min_max_witness:
  "noLineEvidence proseFrame
   \<and> findLineRangeInFrame proseFrame = \<lparr> lineStart = None, lineEnd = None \<rparr>
   \<and> set (collectLineNums mixedLinesFrame) \<noteq> {}
   \<and> findLineRangeInFrame mixedLinesFrame = \<lparr> lineStart = Some 3, lineEnd = Some 99 \<rparr>"
proof -
  have e: "noLineEvidence proseFrame" by code_simp
  have c: "collectLineNums mixedLinesFrame = [7, 12, 67, 3, 99]" by code_simp
  from e line_range_min_max [of proseFrame]
  have "findLineRangeInFrame proseFrame = \<lparr> lineStart = None, lineEnd = None \<rparr>" by blast
  moreover from c line_range_min_max [of mixedLinesFrame]
  have "findLineRangeInFrame mixedLinesFrame = \<lparr> lineStart = Some 3, lineEnd = Some 99 \<rparr>"
    by simp
  ultimately show ?thesis using e c by simp
qed

subsection \<open>The segmenter\<close>

lemma dedupFirstSeen_subset: "set (dedupFirstSeen key xs) \<subseteq> set xs"
  by (induction xs) auto

lemma dedupFirstSeen_distinct: "distinct (map key (dedupFirstSeen key xs))"
  by (induction xs) (auto simp: distinct_map_filter)

lemma dedupFirstSeen_subseq: "subseq (dedupFirstSeen key xs) xs"
proof (induction xs)
  case Nil
  show ?case by simp
next
  case (Cons x xs)
  have "subseq (filter (\<lambda>y. key y \<noteq> key x) (dedupFirstSeen key xs)) (dedupFirstSeen key xs)"
    by simp
  with Cons have "subseq (filter (\<lambda>y. key y \<noteq> key x) (dedupFirstSeen key xs)) xs"
    using subseq_order.order_trans by blast
  then show ?case by simp
qed

lemma find_filter_weaker:
  "(\<And>y. P y \<Longrightarrow> Q y) \<Longrightarrow> find P (filter Q ys) = find P ys"
  by (induction ys) auto

lemma dedupFirstSeen_find:
  "find (\<lambda>y. key y = k) (dedupFirstSeen key xs) = find (\<lambda>y. key y = k) xs"
proof (induction xs)
  case Nil
  show ?case by simp
next
  case (Cons x xs)
  show ?case
  proof (cases "key x = k")
    case True
    then show ?thesis by simp
  next
    case False
    have "find (\<lambda>y. key y = k) (filter (\<lambda>y. key y \<noteq> key x) (dedupFirstSeen key xs))
            = find (\<lambda>y. key y = k) (dedupFirstSeen key xs)"
      using False by (intro find_filter_weaker) auto
    with False Cons show ?thesis by simp
  qed
qed

lemma dedupFirstSeen_cong:
  assumes "\<forall>x\<in>set xs. f x = g x"
  shows "dedupFirstSeen f xs = dedupFirstSeen g xs"
  using assms
proof (induction xs)
  case Nil
  show ?case by simp
next
  case (Cons x xs)
  from Cons.prems have fx: "f x = g x" by simp
  from Cons.prems have "\<forall>x\<in>set xs. f x = g x" by simp
  then have ih: "dedupFirstSeen f xs = dedupFirstSeen g xs" by (rule Cons.IH)
  have "filter (\<lambda>y. f y \<noteq> g x) (dedupFirstSeen g xs)
          = filter (\<lambda>y. g y \<noteq> g x) (dedupFirstSeen g xs)"
  proof (rule filter_cong)
    show "dedupFirstSeen g xs = dedupFirstSeen g xs" by (rule refl)
  next
    fix y assume "y \<in> set (dedupFirstSeen g xs)"
    with dedupFirstSeen_subset [of g xs] have "y \<in> set xs" by (rule subsetD)
    with Cons.prems have "f y = g y" by simp
    then show "(f y \<noteq> g x) = (g y \<noteq> g x)" by (simp only:)
  qed
  with ih fx show ?case by (simp only: dedupFirstSeen.simps)
qed

lemma filter_filter_absorb:
  "(\<And>y. P y \<Longrightarrow> Q y) \<Longrightarrow> filter P (filter Q ys) = filter P ys"
  by (induction ys) auto

lemma filter_notin_snoc:
  "filter (\<lambda>y. f y \<notin> set (seen @ [k])) ys = filter (\<lambda>y. f y \<notin> set seen) (filter (\<lambda>y. f y \<noteq> k) ys)"
  by (induction ys) auto

lemma dedupeLoop_eq:
  "dedupeLoop arr seen out
     = out @ filter (\<lambda>y. toLowerCase y \<notin> set seen) (dedupFirstSeen toLowerCase arr)"
proof (induction arr arbitrary: seen out)
  case Nil
  show ?case by simp
next
  case (Cons s arr)
  show ?case
  proof (cases "toLowerCase s \<in> set seen")
    case True
    have "filter (\<lambda>y. toLowerCase y \<notin> set seen)
            (filter (\<lambda>y. toLowerCase y \<noteq> toLowerCase s) (dedupFirstSeen toLowerCase arr))
          = filter (\<lambda>y. toLowerCase y \<notin> set seen) (dedupFirstSeen toLowerCase arr)"
      using True by (intro filter_filter_absorb) auto
    with True show ?thesis by (simp add: Let_def Cons.IH del: filter_filter)
  next
    case False
    then show ?thesis
      by (simp add: Let_def Cons.IH filter_notin_snoc del: filter_filter set_append)
  qed
qed

lemma dedupe_firstSeen: "dedupe arr = dedupFirstSeen toLowerCase arr"
  by (simp add: dedupe_def dedupeLoop_eq)

text \<open>Stripping a class of characters from both ends.\<close>

lemma strip_ends:
  assumes "rev (dropWhile P (rev (dropWhile P s))) \<noteq> []"
  shows "\<not> P (hd (rev (dropWhile P (rev (dropWhile P s)))))
         \<and> \<not> P (last (rev (dropWhile P (rev (dropWhile P s)))))"
proof -
  define u where "u = dropWhile P s"
  define v where "v = dropWhile P (rev u)"
  from assms have v: "v \<noteq> []" by (simp add: u_def v_def)
  then have hv: "\<not> P (hd v)" unfolding v_def by (rule hd_dropWhile)
  from v have u: "u \<noteq> []" by (auto simp: v_def)
  then have hu: "\<not> P (hd u)" unfolding u_def by (rule hd_dropWhile)
  have "last (takeWhile P (rev u) @ v) = last v" using v by (rule last_appendR)
  moreover have "takeWhile P (rev u) @ v = rev u" unfolding v_def by (rule takeWhile_dropWhile_id)
  ultimately have "last (rev u) = last v" by simp
  moreover have "last (rev u) = hd u" using u by (cases u) simp_all
  ultimately have "last v = hd u" by simp
  moreover have "hd (rev v) = last v" by (simp add: hd_rev)
  moreover have "last (rev v) = hd v" using v by (cases v) simp_all
  ultimately have "\<not> P (hd (rev v)) \<and> \<not> P (last (rev v))" using hu hv by simp
  then show ?thesis by (simp add: u_def v_def)
qed

lemma strip_fix:
  assumes "s = [] \<or> (\<not> P (hd s) \<and> \<not> P (last s))"
  shows "rev (dropWhile P (rev (dropWhile P s))) = s"
proof (cases "s = []")
  case True
  then show ?thesis by simp
next
  case False
  with assms have h: "\<not> P (hd s)" and l: "\<not> P (last s)" by auto
  from False h have a: "dropWhile P s = s" by (cases s) auto
  from False obtain ys y where s: "s = ys @ [y]" by (cases s rule: rev_cases) auto
  with l have "\<not> P y" by simp
  with s have "dropWhile P (rev s) = rev s" by simp
  with a show ?thesis by simp
qed

lemma trim_ends: "trim s \<noteq> [] \<Longrightarrow> \<not> isSpace (hd (trim s)) \<and> \<not> isSpace (last (trim s))"
  unfolding trim_def by (rule strip_ends)

lemma trim_fix: "s = [] \<or> (\<not> isSpace (hd s) \<and> \<not> isSpace (last s)) \<Longrightarrow> trim s = s"
  unfolding trim_def by (rule strip_fix)

lemma trim_trim: "trim (trim s) = trim s"
  using trim_ends [of s] by (intro trim_fix) blast

lemma safeText_trimmed: "trim (safeText el) = safeText el"
  by (simp add: safeText_def trim_trim)

lemma stripQuotes_trimmed: "trim (stripQuotes s) = stripQuotes s"
proof (cases "stripQuotes s = []")
  case True
  then show ?thesis by (simp add: trim_def)
next
  case False
  then have "\<not> isQuoteOrSpace (hd (stripQuotes s)) \<and> \<not> isQuoteOrSpace (last (stripQuotes s))"
    unfolding stripQuotes_def by (rule strip_ends)
  then show ?thesis by (intro trim_fix) (simp add: isQuoteOrSpace_def)
qed

lemma labelled_trimmed:
  assumes "trim code = code" "code \<noteq> []" "lbl \<noteq> []" "\<not> isSpace (hd lbl)"
  shows "trim (lbl @ code) = lbl @ code"
proof -
  from assms(1,2) have "\<not> isSpace (last code)" using trim_ends [of code] by simp
  with assms show ?thesis by (intro trim_fix) simp
qed


lemma listItems_trimmed: "x \<in> set (extractListItems b) \<Longrightarrow> trim x = x"
  by (auto simp: extractListItems_def safeText_trimmed)

lemma patternLines_trimmed: "x \<in> set (extractPatternLines b) \<Longrightarrow> trim x = x"
  by (auto simp: extractPatternLines_def Let_def stripQuotes_trimmed
           split: if_splits option.splits)

lemma changeBlocks_trimmed:
  assumes "x \<in> set (extractSuggestedChangeBlocks b)"
  shows "trim x = x"
proof -
  have a: "\<not> isSpace (hd (js ''Suggested change:\<newline>''))" "js ''Suggested change:\<newline>'' \<noteq> []"
          "\<not> isSpace (hd (js ''Suggested diff:\<newline>''))" "js ''Suggested diff:\<newline>'' \<noteq> []"
    by (simp_all add: js_def isSpace_def)
  from assms consider
      (d) code where "x = js ''Suggested change:\<newline>'' @ code" "code \<noteq> []" "trim code = code"
    | (t) code where "x = js ''Suggested diff:\<newline>'' @ code" "code \<noteq> []" "trim code = code"
    by (auto simp: extractSuggestedChangeBlocks_def Let_def safeText_trimmed trim_trim
             split: if_splits)
  then show ?thesis
    using a by cases (simp_all add: labelled_trimmed)
qed

lemma structuredItems_trimmed: "x \<in> set (structuredItems c) \<Longrightarrow> trim x = x"
  by (auto simp: structuredItems_def listItems_trimmed patternLines_trimmed changeBlocks_trimmed
           split: option.splits)

lemma segment_dedupe: "extractSuggestionsFromComment c = dedupe (structuredItems c)"
  by (simp add: extractSuggestionsFromComment_def structuredItems_def dedupe_def Let_def
           split: option.splits)

text \<open>
  C8. For every comment the segmenter returns the concatenation of what the three
  structured strategies produce, with duplicates removed by the lower-cased trimmed text,
  the first occurrence of each key kept, in first-seen order: the keys of the result are
  pairwise different, the result is a subsequence of the concatenation, and for each key
  the element found in the result is the first one of the concatenation with that key.
\<close>

theorem segment_dedup_first_seen:
  "extractSuggestionsFromComment c = dedupFirstSeen dedupKey (structuredItems c)
   \<and> distinct (map dedupKey (extractSuggestionsFromComment c))
   \<and> subseq (extractSuggestionsFromComment c) (structuredItems c)
   \<and> (\<forall>k. find (\<lambda>y. dedupKey y = k) (extractSuggestionsFromComment c)
            = find (\<lambda>y. dedupKey y = k) (structuredItems c))"
proof -
  have "dedupFirstSeen toLowerCase (structuredItems c)
          = dedupFirstSeen dedupKey (structuredItems c)"
    by (rule dedupFirstSeen_cong) (simp add: dedupKey_def structuredItems_trimmed)
  then have "extractSuggestionsFromComment c = dedupFirstSeen dedupKey (structuredItems c)"
    by (simp add: segment_dedupe dedupe_firstSeen)
  then show ?thesis
    by (simp add: dedupFirstSeen_distinct dedupFirstSeen_subseq dedupFirstSeen_find)
qed

text \<open>
  C2. A comment written as one plain paragraph of more than 10 characters, for which the
  three structured strategies produce nothing: the segmenter returns the empty list, not
  the paragraph. \<open>extractSuggestionsFromComment\<close> has no plain-text fallback, although
  the release notes and the change log of version 1.1.0 describe one.
\<close>

theorem plain_comment_yields_nothing:
  "structuredItems plainComment = []
   \<and> 10 < length (safeText (Some (bodyText plainBody)))
   \<and> extractSuggestionsFromComment plainComment = []"
  by code_simp

text \<open>The same holds whatever the length of the text.\<close>

lemma no_plain_text_fallback:
  "structuredItems c = [] \<Longrightarrow> extractSuggestionsFromComment c = []"
  by (simp add: segment_dedupe dedupe_def)

theorem segment_dedup_first_seen_witness:
  "structuredItems listComment
     = [js ''Use const instead of let'', js ''Remove the unused import'',
        js ''use CONST instead of let'', js ''Remove the unused import'']
   \<and> extractSuggestionsFromComment listComment
     = [js ''Use const instead of let'', js ''Remove the unused import'']"
proof -
  have s: "structuredItems listComment
     = [js ''Use const instead of let'', js ''Remove the unused import'',
        js ''use CONST instead of let'', js ''Remove the unused import'']"
    by code_simp
  have "dedupFirstSeen dedupKey
     [js ''Use const instead of let'', js ''Remove the unused import'',
        js ''use CONST instead of let'', js ''Remove the unused import'']
     = [js ''Use const instead of let'', js ''Remove the unused import'']"
    by code_simp
  with s segment_dedup_first_seen [of listComment] show ?thesis by simp
qed

subsection \<open>The orchestrator\<close>

lemma text_makeSuggestion: "text (makeSuggestion h f c idx i t) = t"
  by (simp add: makeSuggestion_def Let_def)

lemma isCopilot_makeSuggestion: "isCopilot (makeSuggestion h f c idx i t) = isCopilotAuthor c"
  by (simp add: makeSuggestion_def Let_def)

text \<open>
  C3. If at least one record of the candidate list has the primary-author flag, the
  orchestrator returns exactly the flagged records in their original order; if none has,
  it returns the whole list unchanged.
\<close>

theorem global_author_filter:
  "extractAllSuggestions pg =
     (if \<exists>s\<in>set (allCandidates pg). isCopilot s
      then filter isCopilot (allCandidates pg) else allCandidates pg)
   \<and> subseq (extractAllSuggestions pg) (allCandidates pg)"
  by (simp add: extractAllSuggestions_def Let_def list_ex_iff)

lemma segs:
  "extractSuggestionsFromComment humanComment = [js ''please add a test'']"
  "extractSuggestionsFromComment plainComment = []"
  "extractSuggestionsFromComment listComment
     = [js ''Use const instead of let'', js ''Remove the unused import'']"
  by code_simp+

lemma authors:
  "isCopilotAuthor humanComment = False"
  "isCopilotAuthor plainComment = True"
  "isCopilotAuthor listComment = True"
  by code_simp+

lemma hasBodyLike_examples:
  "hasBodyLike humanComment" "hasBodyLike plainComment" "hasBodyLike listComment"
  by (simp_all add: humanComment_def plainComment_def listComment_def)

lemma candidates_examplePage:
  "allCandidates examplePage
     = [makeSuggestion (locationHref examplePage) (frames examplePage ! 0) humanComment 0 0
          (js ''please add a test''),
        makeSuggestion (locationHref examplePage) (frames examplePage ! 0) listComment 1 0
          (js ''Use const instead of let''),
        makeSuggestion (locationHref examplePage) (frames examplePage ! 0) listComment 1 1
          (js ''Remove the unused import''),
        makeSuggestion (locationHref examplePage) (frames examplePage ! 1) humanComment 1 0
          (js ''please add a test'')]"
  by (simp add: allCandidates_def examplePage_def findCommentRootsInTurboFrame_def
        hasBodyLike_examples segs enumerate_eq_zip upt_rec)

lemma candidates_humanPage:
  "allCandidates humanPage
     = [makeSuggestion (locationHref humanPage) (frames humanPage ! 0) humanComment 0 0
          (js ''please add a test''),
        makeSuggestion (locationHref humanPage) (frames humanPage ! 0) humanComment 1 0
          (js ''please add a test'')]"
  by (simp add: allCandidates_def humanPage_def findCommentRootsInTurboFrame_def
        hasBodyLike_examples segs enumerate_eq_zip upt_rec)

theorem global_author_filter_witness:
  "(\<exists>s\<in>set (allCandidates examplePage). isCopilot s)
   \<and> map text (extractAllSuggestions examplePage)
       = [js ''Use const instead of let'', js ''Remove the unused import'']
   \<and> \<not> (\<exists>s\<in>set (allCandidates humanPage). isCopilot s)
   \<and> extractAllSuggestions humanPage = allCandidates humanPage"
proof -
  have e: "\<exists>s\<in>set (allCandidates examplePage). isCopilot s"
    by (simp add: candidates_examplePage isCopilot_makeSuggestion authors)
  have h: "\<not> (\<exists>s\<in>set (allCandidates humanPage). isCopilot s)"
    by (simp add: candidates_humanPage isCopilot_makeSuggestion authors)
  from e global_author_filter [of examplePage]
  have "extractAllSuggestions examplePage = filter isCopilot (allCandidates examplePage)"
    by simp
  then have "map text (extractAllSuggestions examplePage)
       = [js ''Use const instead of let'', js ''Remove the unused import'']"
    by (simp add: candidates_examplePage isCopilot_makeSuggestion text_makeSuggestion authors)
  moreover from h global_author_filter [of humanPage]
  have "extractAllSuggestions humanPage = allCandidates humanPage" by simp
  ultimately show ?thesis using e h by simp
qed


subsection \<open>Summaries\<close>

lemma summarize_length: "length (summarize txt) \<le> 140"
  by (auto simp: summarize_def Let_def)

lemma collapseFrom_nonspace:
  "filter (\<lambda>c. \<not> isSpace c) (collapseFrom b s) = filter (\<lambda>c. \<not> isSpace c) s"
proof (induction s arbitrary: b)
  case Nil
  show ?case by simp
next
  case (Cons c s)
  have "isSpace 0x20" by (simp add: isSpace_def)
  with Cons show ?case by simp
qed

lemma trim_empty_iff: "trim s = [] \<longleftrightarrow> (\<forall>c\<in>set s. isSpace c)"
proof
  assume "trim s = []"
  then have "\<forall>c\<in>set (dropWhile isSpace s). isSpace c"
    by (simp add: trim_def)
  then have "dropWhile isSpace s = []"
    using hd_dropWhile [of isSpace s] by (cases "dropWhile isSpace s") auto
  then show "\<forall>c\<in>set s. isSpace c" by simp
next
  assume "\<forall>c\<in>set s. isSpace c"
  then have d: "dropWhile isSpace s = []" by simp
  show "trim s = []" unfolding trim_def d by simp
qed

lemma trim_collapse_nonempty:
  assumes "\<exists>c\<in>set txt. \<not> isSpace c"
  shows "trim (collapseSpaces txt) \<noteq> []"
proof -
  from assms have "filter (\<lambda>c. \<not> isSpace c) txt \<noteq> []" by (simp add: filter_empty_conv)
  then have "filter (\<lambda>c. \<not> isSpace c) (collapseSpaces txt) \<noteq> []"
    by (simp add: collapseSpaces_def collapseFrom_nonspace)
  then have "\<exists>c\<in>set (collapseSpaces txt). \<not> isSpace c" by (simp add: filter_empty_conv)
  then show ?thesis by (simp add: trim_empty_iff)
qed

lemma summarize_nonempty:
  assumes "\<exists>c\<in>set txt. \<not> isSpace c"
  shows "summarize txt \<noteq> []"
proof -
  define t where "t = trim (collapseSpaces txt)"
  have t: "t \<noteq> []" unfolding t_def using assms by (rule trim_collapse_nonempty)
  show ?thesis
  proof (cases "length t \<le> 140")
    case True
    with t show ?thesis by (simp add: summarize_def Let_def t_def)
  next
    case False
    with t show ?thesis by (auto simp: summarize_def Let_def t_def)
  qed
qed

text \<open>What \<open>indexOfFrom\<close> returns: \<open>-1\<close> when the character does not occur from the
  start index on, else the first index from there on that holds it.\<close>

lemma indexOfFrom_first:
  "(indexOfFrom t ch i = - 1 \<and> (\<forall>j. i \<le> j \<and> j < length t \<longrightarrow> t ! j \<noteq> ch))
   \<or> (\<exists>k. indexOfFrom t ch i = int k \<and> i \<le> k \<and> k < length t \<and> t ! k = ch
            \<and> (\<forall>j. i \<le> j \<and> j < k \<longrightarrow> t ! j \<noteq> ch))"
proof (induction t ch i rule: indexOfFrom.induct)
  case (1 t ch i)
  show ?case
  proof (cases "i < length t")
    case False
    then have "indexOfFrom t ch i = - 1" by (simp add: indexOfFrom.simps [of t ch i])
    moreover from False have "\<forall>j. i \<le> j \<and> j < length t \<longrightarrow> t ! j \<noteq> ch" by auto
    ultimately show ?thesis by blast
  next
    case len: True
    show ?thesis
    proof (cases "t ! i = ch")
      case True
      with len have "indexOfFrom t ch i = int i" by (simp add: indexOfFrom.simps [of t ch i])
      with len True show ?thesis by auto
    next
      case False
      with len have e: "indexOfFrom t ch i = indexOfFrom t ch (Suc i)"
        by (simp add: indexOfFrom.simps [of t ch i])
      have step: "\<And>j. i \<le> j \<Longrightarrow> j \<noteq> i \<Longrightarrow> Suc i \<le> j" by simp
      from "1.IH" [OF len False] show ?thesis
      proof
        assume a: "indexOfFrom t ch (Suc i) = - 1
                   \<and> (\<forall>j. Suc i \<le> j \<and> j < length t \<longrightarrow> t ! j \<noteq> ch)"
        have "\<forall>j. i \<le> j \<and> j < length t \<longrightarrow> t ! j \<noteq> ch"
        proof (intro allI impI)
          fix j assume j: "i \<le> j \<and> j < length t"
          show "t ! j \<noteq> ch"
          proof (cases "j = i")
            case True
            with False show ?thesis by simp
          next
            case False
            with j have "Suc i \<le> j" by simp
            with a j show ?thesis by simp
          qed
        qed
        with a e show ?thesis by simp
      next
        assume "\<exists>k. indexOfFrom t ch (Suc i) = int k \<and> Suc i \<le> k \<and> k < length t
                    \<and> t ! k = ch \<and> (\<forall>j. Suc i \<le> j \<and> j < k \<longrightarrow> t ! j \<noteq> ch)"
        then obtain k where k: "indexOfFrom t ch (Suc i) = int k" "Suc i \<le> k" "k < length t"
          "t ! k = ch" "\<forall>j. Suc i \<le> j \<and> j < k \<longrightarrow> t ! j \<noteq> ch" by blast
        have "\<forall>j. i \<le> j \<and> j < k \<longrightarrow> t ! j \<noteq> ch"
        proof (intro allI impI)
          fix j assume j: "i \<le> j \<and> j < k"
          show "t ! j \<noteq> ch"
          proof (cases "j = i")
            case True
            with False show ?thesis by simp
          next
            case False
            with j have "Suc i \<le> j" by simp
            with k(5) j show ?thesis by simp
          qed
        qed
        moreover from k(2) have "i \<le> k" by simp
        ultimately have "indexOfFrom t ch i = int k \<and> i \<le> k \<and> k < length t \<and> t ! k = ch
            \<and> (\<forall>j. i \<le> j \<and> j < k \<longrightarrow> t ! j \<noteq> ch)"
          using k e by simp
        then show ?thesis by blast
      qed
    qed
  qed
qed

text \<open>The rule of a summary: the normalised text itself when it has at most 140 code
  units; else its prefix through the first full stop at an index from 60 on, when that
  index is below 140; else its first 139 code units and an ellipsis.\<close>

lemma summarize_rule:
  "(length (trim (collapseSpaces txt)) \<le> 140 \<longrightarrow> summarize txt = trim (collapseSpaces txt))
   \<and> (140 < length (trim (collapseSpaces txt)) \<longrightarrow>
        (\<exists>k. 60 \<le> k \<and> k < 140 \<and> trim (collapseSpaces txt) ! k = 0x2E
              \<and> (\<forall>j. 60 \<le> j \<and> j < k \<longrightarrow> trim (collapseSpaces txt) ! j \<noteq> 0x2E)
              \<and> summarize txt = take (Suc k) (trim (collapseSpaces txt)))
        \<or> ((\<forall>j. 60 \<le> j \<and> j < 140 \<longrightarrow> trim (collapseSpaces txt) ! j \<noteq> 0x2E)
            \<and> summarize txt = take 139 (trim (collapseSpaces txt)) @ [0x2026]))"
proof -
  define t where "t = trim (collapseSpaces txt)"
  define e where "e = indexOfFrom t 0x2E 60"
  show ?thesis
  proof (cases "length t \<le> 140")
    case True
    then show ?thesis by (simp add: summarize_def Let_def t_def)
  next
    case long: False
    have dots: "summarize txt = take 139 t @ [0x2026]" if "\<not> (0 < e \<and> e < 140)"
      using long that by (auto simp: summarize_def Let_def t_def e_def)
    from indexOfFrom_first [of t "0x2E" 60]
    have "(\<exists>k. 60 \<le> k \<and> k < 140 \<and> t ! k = 0x2E
              \<and> (\<forall>j. 60 \<le> j \<and> j < k \<longrightarrow> t ! j \<noteq> 0x2E)
              \<and> summarize txt = take (Suc k) t)
        \<or> ((\<forall>j. 60 \<le> j \<and> j < 140 \<longrightarrow> t ! j \<noteq> 0x2E)
            \<and> summarize txt = take 139 t @ [0x2026])"
    proof
      assume a: "indexOfFrom t 0x2E 60 = - 1
                 \<and> (\<forall>j. 60 \<le> j \<and> j < length t \<longrightarrow> t ! j \<noteq> 0x2E)"
      then have "\<not> (0 < e \<and> e < 140)" by (simp add: e_def)
      then have "summarize txt = take 139 t @ [0x2026]" by (rule dots)
      moreover from a long have "\<forall>j. 60 \<le> j \<and> j < 140 \<longrightarrow> t ! j \<noteq> 0x2E" by simp
      ultimately show ?thesis by blast
    next
      assume "\<exists>k. indexOfFrom t 0x2E 60 = int k \<and> 60 \<le> k \<and> k < length t \<and> t ! k = 0x2E
                  \<and> (\<forall>j. 60 \<le> j \<and> j < k \<longrightarrow> t ! j \<noteq> 0x2E)"
      then obtain k where k: "e = int k" "60 \<le> k" "k < length t" "t ! k = 0x2E"
        "\<forall>j. 60 \<le> j \<and> j < k \<longrightarrow> t ! j \<noteq> 0x2E" unfolding e_def by blast
      show ?thesis
      proof (cases "k < 140")
        case True
        with k(1,2) have "0 < e \<and> e < 140" by simp
        with long have "summarize txt = take (nat (e + 1)) t"
          by (simp add: summarize_def Let_def t_def e_def)
        moreover have "nat (e + 1) = Suc k" using k(1) by simp
        ultimately have "summarize txt = take (Suc k) t" by simp
        with k True show ?thesis by blast
      next
        case False
        with k(1) have "\<not> (0 < e \<and> e < 140)" by simp
        then have "summarize txt = take 139 t @ [0x2026]" by (rule dots)
        moreover from False k(5) have "\<forall>j. 60 \<le> j \<and> j < 140 \<longrightarrow> t ! j \<noteq> 0x2E" by simp
        ultimately show ?thesis by blast
      qed
    qed
    with long show ?thesis unfolding t_def [symmetric] by simp
  qed
qed

lemma structuredItems_nonempty: "x \<in> set (structuredItems c) \<Longrightarrow> x \<noteq> []"
  by (auto simp: structuredItems_def extractListItems_def extractPatternLines_def
                 extractSuggestedChangeBlocks_def Let_def js_def
           split: option.splits if_splits)

lemma trimmed_has_nonspace:
  assumes "trim x = x" "x \<noteq> []"
  shows "\<exists>c\<in>set x. \<not> isSpace c"
proof -
  from assms have "trim x \<noteq> []" by simp
  then show ?thesis by (simp add: trim_empty_iff)
qed

lemma segment_subset: "set (extractSuggestionsFromComment c) \<subseteq> set (structuredItems c)"
  by (simp add: segment_dedupe dedupe_firstSeen dedupFirstSeen_subset)

lemma reviewText_Some:
  "extractReviewTextOnly c = Some r \<Longrightarrow> r \<noteq> [] \<and> trim r = r"
  by (auto simp: extractReviewTextOnly_def Let_def trim_trim split: option.splits if_splits)

lemma allCandidates_mem:
  assumes "s \<in> set (allCandidates pg)"
  obtains frame idx i where
    "frame \<in> set (frames pg)"
    "idx < length (findCommentRootsInTurboFrame frame)"
    "i < length (extractSuggestionsFromComment (findCommentRootsInTurboFrame frame ! idx))"
    "s = makeSuggestion (locationHref pg) frame (findCommentRootsInTurboFrame frame ! idx) idx i
           (extractSuggestionsFromComment (findCommentRootsInTurboFrame frame ! idx) ! i)"
  using assms by (auto simp: allCandidates_def in_set_enumerate_eq)

lemma extractAll_subset: "set (extractAllSuggestions pg) \<subseteq> set (allCandidates pg)"
  by (auto simp: extractAllSuggestions_def Let_def)

lemma makeSuggestion_fields:
  "text (makeSuggestion h f c idx i t) = t"
  "reviewText (makeSuggestion h f c idx i t) = extractReviewTextOnly c"
  "summary (makeSuggestion h f c idx i t)
     = summarize (the (orElse (extractReviewTextOnly c) (Some t)))"
  by (simp_all add: makeSuggestion_def Let_def)

text \<open>
  C10 (amended). The summary of every suggestion of an extraction is made from the review
  text, or from the suggestion text when there is no review text, with its white space
  normalised. When that has at most 140 code units it is the summary. Otherwise, when the
  first full stop at an index from 60 on lies before index 140, the summary is the prefix
  that ends with this full stop, whether or not a sentence ends there, and without an
  ellipsis; otherwise it is the first 139 code units followed by an ellipsis. So a summary
  never has more than 140 code units, and it is never empty (the text of a suggestion
  never is).
\<close>

theorem summary_first_full_stop:
  assumes "s \<in> set (extractAllSuggestions pg)"
  shows "summary s = summarize (summarySource s)
         \<and> length (summary s) \<le> 140
         \<and> text s \<noteq> [] \<and> summary s \<noteq> []
         \<and> (length (trim (collapseSpaces (summarySource s))) \<le> 140
              \<longrightarrow> summary s = trim (collapseSpaces (summarySource s)))
         \<and> (140 < length (trim (collapseSpaces (summarySource s)))
              \<longrightarrow> (\<exists>k. 60 \<le> k \<and> k < 140
                        \<and> trim (collapseSpaces (summarySource s)) ! k = 0x2E
                        \<and> (\<forall>j. 60 \<le> j \<and> j < k
                               \<longrightarrow> trim (collapseSpaces (summarySource s)) ! j \<noteq> 0x2E)
                        \<and> summary s = take (Suc k) (trim (collapseSpaces (summarySource s))))
                  \<or> ((\<forall>j. 60 \<le> j \<and> j < 140
                           \<longrightarrow> trim (collapseSpaces (summarySource s)) ! j \<noteq> 0x2E)
                      \<and> summary s
                          = take 139 (trim (collapseSpaces (summarySource s))) @ [0x2026]))"
proof -
  from assms have "s \<in> set (allCandidates pg)" using extractAll_subset by blast
  then obtain frame idx i where
      i: "i < length (extractSuggestionsFromComment (findCommentRootsInTurboFrame frame ! idx))"
    and s0: "s = makeSuggestion (locationHref pg) frame
                   (findCommentRootsInTurboFrame frame ! idx) idx i
                   (extractSuggestionsFromComment (findCommentRootsInTurboFrame frame ! idx) ! i)"
    by (rule allCandidates_mem)
  define c where "c = findCommentRootsInTurboFrame frame ! idx"
  define tx where "tx = extractSuggestionsFromComment c ! i"
  from i have t: "tx \<in> set (extractSuggestionsFromComment c)" by (simp add: tx_def c_def)
  from s0 have s: "s = makeSuggestion (locationHref pg) frame c idx i tx"
    by (simp add: tx_def c_def)
  from t have m: "tx \<in> set (structuredItems c)" using segment_subset by blast
  then have tne: "tx \<noteq> []" by (rule structuredItems_nonempty)
  from m have "trim tx = tx" by (rule structuredItems_trimmed)
  with tne have tns: "\<exists>ch\<in>set tx. \<not> isSpace ch" by (intro trimmed_has_nonspace)
  define src where "src = summarySource s"
  have src: "the (orElse (extractReviewTextOnly c) (Some tx)) = src"
    using reviewText_Some [of c]
    by (cases "extractReviewTextOnly c")
       (simp_all add: src_def summarySource_def s makeSuggestion_fields orElse_def)
  have "\<exists>ch\<in>set src. \<not> isSpace ch"
  proof (cases "extractReviewTextOnly c")
    case None
    with tns show ?thesis by (simp add: src_def summarySource_def s makeSuggestion_fields)
  next
    case (Some r)
    with reviewText_Some [of c r] have "\<exists>ch\<in>set r. \<not> isSpace ch"
      by (intro trimmed_has_nonspace) simp_all
    with Some show ?thesis by (simp add: src_def summarySource_def s makeSuggestion_fields)
  qed
  then have ne: "summarize src \<noteq> []" by (rule summarize_nonempty)
  have e: "summary s = summarize src" by (simp add: s makeSuggestion_fields src)
  have tx: "text s = tx" by (simp add: s makeSuggestion_fields)
  from e ne tne tx summarize_rule [of src] summarize_length [of src]
  show ?thesis unfolding src_def [symmetric] by simp
qed

lemma longComment_facts:
  "extractSuggestionsFromComment longComment = [longText]"
  "isCopilotAuthor longComment = True"
  "hasBodyLike longComment"
  "extractReviewTextOnly longComment = Some longText"
  by code_simp+

lemma noStopComment_facts:
  "extractSuggestionsFromComment noStopComment = [longTextNoStop]"
  "isCopilotAuthor noStopComment = True"
  "hasBodyLike noStopComment"
  "extractReviewTextOnly noStopComment = Some longTextNoStop"
  by code_simp+

lemma candidates_longPage:
  "allCandidates longPage
     = [makeSuggestion (locationHref longPage) (frames longPage ! 0) longComment 0 0 longText,
        makeSuggestion (locationHref longPage) (frames longPage ! 0) noStopComment 1 0
          longTextNoStop]"
  by (simp add: allCandidates_def longPage_def findCommentRootsInTurboFrame_def
        longComment_facts noStopComment_facts enumerate_eq_zip upt_rec)

lemma extracted_longPage:
  "extractAllSuggestions longPage
     = [makeSuggestion (locationHref longPage) (frames longPage ! 0) longComment 0 0 longText,
        makeSuggestion (locationHref longPage) (frames longPage ! 0) noStopComment 1 0
          longTextNoStop]"
  by (simp add: extractAllSuggestions_def Let_def candidates_longPage
        isCopilot_makeSuggestion longComment_facts noStopComment_facts)

lemma summarize_long_examples:
  "summarize longText
     = js ''Move the hard coded retry limits out of this function and into settings.''"
  "summarize longTextNoStop = take 139 longTextNoStop @ [0x2026]"
  by code_simp+

lemma longText_split:
  "longText = js ''Move the hard coded retry limits out of this function and into settings.''
              @ js ''yaml so that operators can tune them without a redeploy, and document the new keys in the project README''"
  by (simp add: longText_def js_def)

text \<open>
  C10 as stated fails: the first full stop from index 60 on may be inside a sentence. The
  text below is cut inside the file name \<open>settings.yaml\<close>, in the middle of its only
  sentence, and the summary does not end with an ellipsis.
\<close>

theorem summary_cut_inside_sentence:
  "makeSuggestion (locationHref longPage) (frames longPage ! 0) longComment 0 0 longText
     \<in> set (extractAllSuggestions longPage)
   \<and> text (makeSuggestion (locationHref longPage) (frames longPage ! 0) longComment 0 0 longText)
     = js ''Move the hard coded retry limits out of this function and into settings.''
       @ js ''yaml so that operators can tune them without a redeploy, and document the new keys in the project README''
   \<and> summary (makeSuggestion (locationHref longPage) (frames longPage ! 0) longComment 0 0
                longText)
     = js ''Move the hard coded retry limits out of this function and into settings.''
   \<and> last (summary (makeSuggestion (locationHref longPage) (frames longPage ! 0) longComment
                       0 0 longText)) \<noteq> 0x2026"
proof -
  let ?a = "makeSuggestion (locationHref longPage) (frames longPage ! 0) longComment 0 0 longText"
  have m: "?a \<in> set (extractAllSuggestions longPage)" by (simp add: extracted_longPage)
  have t: "text ?a = js ''Move the hard coded retry limits out of this function and into settings.''
       @ js ''yaml so that operators can tune them without a redeploy, and document the new keys in the project README''"
    using longText_split by (simp add: makeSuggestion_fields)
  have sa: "summary ?a
     = js ''Move the hard coded retry limits out of this function and into settings.''"
    by (simp add: makeSuggestion_fields longComment_facts orElse_def summarize_long_examples)
  have "last (js ''Move the hard coded retry limits out of this function and into settings.'')
          \<noteq> 0x2026" by (simp add: js_def)
  with m t sa show ?thesis by simp
qed

theorem summary_first_full_stop_witness:
  "makeSuggestion (locationHref longPage) (frames longPage ! 0) noStopComment 1 0 longTextNoStop
     \<in> set (extractAllSuggestions longPage)
   \<and> summary (makeSuggestion (locationHref longPage) (frames longPage ! 0) noStopComment 1 0
                longTextNoStop) = take 139 longTextNoStop @ [0x2026]
   \<and> length (take 139 longTextNoStop @ [0x2026]) \<le> 140
   \<and> take 139 longTextNoStop @ [0x2026] \<noteq> []
   \<and> makeSuggestion (locationHref longPage) (frames longPage ! 0) longComment 0 0 longText
     \<in> set (extractAllSuggestions longPage)
   \<and> length (summary (makeSuggestion (locationHref longPage) (frames longPage ! 0) longComment
                        0 0 longText)) \<le> 140"
proof -
  let ?a = "makeSuggestion (locationHref longPage) (frames longPage ! 0) longComment 0 0 longText"
  let ?b = "makeSuggestion (locationHref longPage) (frames longPage ! 0) noStopComment 1 0
              longTextNoStop"
  have m: "?a \<in> set (extractAllSuggestions longPage)"
    "?b \<in> set (extractAllSuggestions longPage)" by (simp_all add: extracted_longPage)
  have sb: "summary ?b = take 139 longTextNoStop @ [0x2026]"
    by (simp add: makeSuggestion_fields noStopComment_facts orElse_def summarize_long_examples)
  from summary_first_full_stop [OF m(2)]
  have "length (summary ?b) \<le> 140 \<and> summary ?b \<noteq> []" by blast
  then have b: "length (take 139 longTextNoStop @ [0x2026]) \<le> 140
                \<and> take 139 longTextNoStop @ [0x2026] \<noteq> []"
    unfolding sb .
  from summary_first_full_stop [OF m(1)]
  have "length (summary ?a) \<le> 140" by blast
  with m sb b show ?thesis by blast
qed

subsection \<open>The prompt builder\<close>

lemma join_snoc: "ys \<noteq> [] \<Longrightarrow> join sep (ys @ [b]) = join sep ys @ sep @ b"
  by (induction sep ys rule: join.induct) (auto simp: neq_Nil_conv)

lemma filterBoolean_append: "filterBoolean (xs @ ys) = filterBoolean xs @ filterBoolean ys"
  by (simp add: filterBoolean_def)

lemma itemHeader_nonempty: "itemHeader idx s \<noteq> []"
  by (simp add: itemHeader_def js_def)

lemma withChangeLabel_nonempty: "x \<noteq> [] \<Longrightarrow> withChangeLabel x \<noteq> []"
  by (simp add: withChangeLabel_def)

lemma itemBlock_with_section:
  assumes "suggestionBlock s = Some blk" "blk \<noteq> []"
  shows "itemBlock idx s
           = join (js ''\<newline>'')
               (filterBoolean [Some (itemHeader idx s), fileLine s, codeSection s, reviewSection s])
             @ js ''\<newline>'' @ blk"
proof -
  have "filterBoolean [Some (itemHeader idx s), fileLine s, codeSection s, reviewSection s,
                       suggestionBlock s, Some []]
        = filterBoolean [Some (itemHeader idx s), fileLine s, codeSection s, reviewSection s]
          @ [blk]"
    using assms by (simp add: filterBoolean_def truthyStr_def)
  moreover have
    "filterBoolean [Some (itemHeader idx s), fileLine s, codeSection s, reviewSection s] \<noteq> []"
    using itemHeader_nonempty [of idx s] by (simp add: filterBoolean_def truthyStr_def)
  ultimately show ?thesis by (simp add: itemBlock_def join_snoc)
qed

lemma itemBlock_without_section:
  assumes "suggestionBlock s = None"
  shows "itemBlock idx s
           = join (js ''\<newline>'')
               (filterBoolean [Some (itemHeader idx s), fileLine s, codeSection s, reviewSection s])"
  using assms by (simp add: itemBlock_def filterBoolean_def truthyStr_def)

text \<open>
  C7 (amended). The block of a suggestion in the prompt ends with a suggested-change
  section made from \<open>suggestedChange\<close> when that is present and not empty; otherwise
  with one made from \<open>text\<close> when the text is not empty and differs from the summary;
  otherwise it has no such section. The chosen string is prefixed with
  \<open>Suggested change:\<close> and a line break unless its trimmed form already starts with
  \<open>Suggested\<close>.
\<close>

theorem prompt_suggestion_section:
  "(truthyStr (suggestedChange s) \<longrightarrow>
      suggestionBlock s = Some (withChangeLabel (the (suggestedChange s)))
      \<and> itemBlock idx s
          = join (js ''\<newline>'')
              (filterBoolean [Some (itemHeader idx s), fileLine s, codeSection s, reviewSection s])
            @ js ''\<newline>'' @ withChangeLabel (the (suggestedChange s)))
   \<and> (\<not> truthyStr (suggestedChange s) \<and> text s \<noteq> [] \<and> text s \<noteq> summary s \<longrightarrow>
      suggestionBlock s = Some (withChangeLabel (text s))
      \<and> itemBlock idx s
          = join (js ''\<newline>'')
              (filterBoolean [Some (itemHeader idx s), fileLine s, codeSection s, reviewSection s])
            @ js ''\<newline>'' @ withChangeLabel (text s))
   \<and> (\<not> truthyStr (suggestedChange s) \<and> (text s = [] \<or> text s = summary s) \<longrightarrow>
      suggestionBlock s = None
      \<and> itemBlock idx s
          = join (js ''\<newline>'')
              (filterBoolean [Some (itemHeader idx s), fileLine s, codeSection s, reviewSection s]))"
proof (intro conjI impI)
  assume a: "truthyStr (suggestedChange s)"
  then obtain c where c: "suggestedChange s = Some c" "c \<noteq> []"
    by (auto simp: truthyStr_def split: option.splits)
  with a show b: "suggestionBlock s = Some (withChangeLabel (the (suggestedChange s)))"
    by (simp add: suggestionBlock_def withChangeLabel_def)
  from c have "withChangeLabel (the (suggestedChange s)) \<noteq> []"
    by (simp add: withChangeLabel_nonempty)
  with b show "itemBlock idx s
          = join (js ''\<newline>'')
              (filterBoolean [Some (itemHeader idx s), fileLine s, codeSection s, reviewSection s])
            @ js ''\<newline>'' @ withChangeLabel (the (suggestedChange s))"
    by (rule itemBlock_with_section)
next
  assume a: "\<not> truthyStr (suggestedChange s) \<and> text s \<noteq> [] \<and> text s \<noteq> summary s"
  then show b: "suggestionBlock s = Some (withChangeLabel (text s))"
    by (simp add: suggestionBlock_def withChangeLabel_def)
  from a have "withChangeLabel (text s) \<noteq> []" by (simp add: withChangeLabel_nonempty)
  with b show "itemBlock idx s
          = join (js ''\<newline>'')
              (filterBoolean [Some (itemHeader idx s), fileLine s, codeSection s, reviewSection s])
            @ js ''\<newline>'' @ withChangeLabel (text s)"
    by (rule itemBlock_with_section)
next
  assume a: "\<not> truthyStr (suggestedChange s) \<and> (text s = [] \<or> text s = summary s)"
  then show b: "suggestionBlock s = None" by (auto simp: suggestionBlock_def)
  then show "itemBlock idx s
          = join (js ''\<newline>'')
              (filterBoolean [Some (itemHeader idx s), fileLine s, codeSection s, reviewSection s])"
    by (rule itemBlock_without_section)
qed

text \<open>
  C7 as stated fails: a record without suggested change whose text is its summary gets
  no suggested-change section at all, and a suggested change that starts with
  \<open>Suggested diff:\<close> is not prefixed with \<open>Suggested change:\<close>.
\<close>

theorem prompt_section_missing:
  "suggestedChange shortSuggestion = None
   \<and> text shortSuggestion = js ''Use const''
   \<and> suggestionBlock shortSuggestion = None
   \<and> itemBlock 0 shortSuggestion = js ''#1 Use const\<newline>Review:\<newline>Use const''
   \<and> \<not> includesStr (itemBlock 0 shortSuggestion) (js ''Suggested change:'')
   \<and> suggestedChange diffSuggestion = Some (js ''Suggested diff:\<newline>- let a = 1\<newline>+ const a = 1'')
   \<and> \<not> startsWith (js ''Suggested diff:\<newline>- let a = 1\<newline>+ const a = 1'') (js ''Suggested change:'')
   \<and> suggestionBlock diffSuggestion = Some (js ''Suggested diff:\<newline>- let a = 1\<newline>+ const a = 1'')
   \<and> \<not> includesStr (itemBlock 0 diffSuggestion) (js ''Suggested change:'')"
  by code_simp

theorem prompt_suggestion_section_witness:
  "truthyStr (suggestedChange codeSuggestion)
   \<and> itemBlock 1 codeSuggestion
       = js ''#2 Prefer const here.\<newline>File: src/app.js (L3-L4)\<newline>Review:\<newline>Prefer const here.\<newline>Suggested change:\<newline>const a = 1''
   \<and> \<not> truthyStr (suggestedChange textSuggestion) \<and> text textSuggestion \<noteq> []
   \<and> text textSuggestion \<noteq> summary textSuggestion
   \<and> itemBlock 0 textSuggestion
       = js ''#1 Use const\<newline>Suggested change:\<newline>Use const instead of let''
   \<and> \<not> truthyStr (suggestedChange shortSuggestion)
   \<and> text shortSuggestion = summary shortSuggestion
   \<and> itemBlock 0 shortSuggestion = js ''#1 Use const\<newline>Review:\<newline>Use const''"
proof -
  have a: "truthyStr (suggestedChange codeSuggestion)" by code_simp
  have b: "\<not> truthyStr (suggestedChange textSuggestion) \<and> text textSuggestion \<noteq> []
           \<and> text textSuggestion \<noteq> summary textSuggestion" by code_simp
  have c: "\<not> truthyStr (suggestedChange shortSuggestion)
           \<and> (text shortSuggestion = [] \<or> text shortSuggestion = summary shortSuggestion)"
    by code_simp
  have a': "join (js ''\<newline>'')
              (filterBoolean [Some (itemHeader 1 codeSuggestion), fileLine codeSuggestion,
                              codeSection codeSuggestion, reviewSection codeSuggestion])
            @ js ''\<newline>'' @ withChangeLabel (the (suggestedChange codeSuggestion))
       = js ''#2 Prefer const here.\<newline>File: src/app.js (L3-L4)\<newline>Review:\<newline>Prefer const here.\<newline>Suggested change:\<newline>const a = 1''"
    by code_simp
  have b': "join (js ''\<newline>'')
              (filterBoolean [Some (itemHeader 0 textSuggestion), fileLine textSuggestion,
                              codeSection textSuggestion, reviewSection textSuggestion])
            @ js ''\<newline>'' @ withChangeLabel (text textSuggestion)
       = js ''#1 Use const\<newline>Suggested change:\<newline>Use const instead of let''"
    by code_simp
  have c': "join (js ''\<newline>'')
              (filterBoolean [Some (itemHeader 0 shortSuggestion), fileLine shortSuggestion,
                              codeSection shortSuggestion, reviewSection shortSuggestion])
       = js ''#1 Use const\<newline>Review:\<newline>Use const''"
    by code_simp
  from a a' prompt_suggestion_section [of codeSuggestion 1]
  have 1: "itemBlock 1 codeSuggestion
       = js ''#2 Prefer const here.\<newline>File: src/app.js (L3-L4)\<newline>Review:\<newline>Prefer const here.\<newline>Suggested change:\<newline>const a = 1''"
    by simp
  from b b' prompt_suggestion_section [of textSuggestion 0]
  have 2: "itemBlock 0 textSuggestion
       = js ''#1 Use const\<newline>Suggested change:\<newline>Use const instead of let''"
    by simp
  from c c' prompt_suggestion_section [of shortSuggestion 0]
  have 3: "itemBlock 0 shortSuggestion = js ''#1 Use const\<newline>Review:\<newline>Use const''"
    by simp
  from a b c 1 2 3 show ?thesis by (simp add: shortSuggestion_def)
qed


subsection \<open>Identifiers\<close>

lemma unat_digitChar:
  "d < 36 \<Longrightarrow> unat (digitChar d) = (if d < 10 then 48 + d else 87 + d)"
  by (simp add: digitChar_def unat_word_ariths unat_of_nat)

lemma digitChar_inj:
  assumes "d < 36" "e < 36" "digitChar d = digitChar e"
  shows "d = e"
proof -
  from assms(3) have "unat (digitChar d) = unat (digitChar e)" by simp
  with assms(1,2) show ?thesis by (simp add: unat_digitChar split: if_splits)
qed

lemma digitChar_not_colon:
  assumes "d < 36"
  shows "digitChar d \<noteq> 0x3A"
proof
  assume "digitChar d = 0x3A"
  then have "unat (digitChar d) = unat (0x3A :: jschar)" by simp
  with assms show False by (simp add: unat_digitChar split: if_splits)
qed

lemma digitsOf_nonempty: "digitsOf b n \<noteq> []"
  by (subst digitsOf.simps) simp

lemma digitsOf_no_colon:
  "2 \<le> b \<Longrightarrow> b \<le> 36 \<Longrightarrow> 0x3A \<notin> set (digitsOf b n)"
proof (induction b n rule: digitsOf.induct)
  case (1 b n)
  show ?case
  proof (cases "n < b")
    case True
    with "1.prems" have "digitChar n \<noteq> 0x3A" by (intro digitChar_not_colon) simp
    with True show ?thesis by (subst digitsOf.simps) auto
  next
    case False
    with "1.prems" have ih: "0x3A \<notin> set (digitsOf b (n div b))" by (intro "1.IH") auto
    have "n mod b < b" using "1.prems"(1) by simp
    with "1.prems"(2) have "n mod b < 36" by simp
    then have "digitChar (n mod b) \<noteq> 0x3A" by (rule digitChar_not_colon)
    with ih False "1.prems" show ?thesis by (subst digitsOf.simps) auto
  qed
qed

lemma digitsOf_inj:
  "2 \<le> b \<Longrightarrow> b \<le> 36 \<Longrightarrow> digitsOf b n = digitsOf b m \<Longrightarrow> n = m"
proof (induction b n arbitrary: m rule: digitsOf.induct)
  case (1 b n)
  have small: "\<And>k. k < b \<Longrightarrow> digitsOf b k = [digitChar k]"
    by (subst digitsOf.simps) simp
  have large: "\<And>k. \<not> k < b \<Longrightarrow> digitsOf b k = digitsOf b (k div b) @ [digitChar (k mod b)]"
    using "1.prems"(1) by (subst digitsOf.simps) simp
  have modb: "\<And>k. k mod b < 36"
  proof -
    fix k
    have "k mod b < b" using "1.prems"(1) by simp
    with "1.prems"(2) show "k mod b < 36" by simp
  qed
  show ?case
  proof (cases "n < b")
    case n: True
    show ?thesis
    proof (cases "m < b")
      case True
      with n "1.prems" have "digitChar n = digitChar m" by (simp add: small)
      moreover from n True "1.prems" have "n < 36" "m < 36" by simp_all
      ultimately show ?thesis by (intro digitChar_inj)
    next
      case False
      with n "1.prems"(3) have "[digitChar n] = digitsOf b (m div b) @ [digitChar (m mod b)]"
        by (simp add: small large)
      then have "digitsOf b (m div b) = []" by simp
      with digitsOf_nonempty show ?thesis by blast
    qed
  next
    case n: False
    show ?thesis
    proof (cases "m < b")
      case True
      with n "1.prems"(3) have "digitsOf b (n div b) @ [digitChar (n mod b)] = [digitChar m]"
        by (simp add: small large)
      then have "digitsOf b (n div b) = []" by simp
      with digitsOf_nonempty show ?thesis by blast
    next
      case False
      with n "1.prems"(3) have e: "digitsOf b (n div b) = digitsOf b (m div b)"
        and d: "digitChar (n mod b) = digitChar (m mod b)"
        by (simp_all add: large)
      from n "1.prems"(1) have "\<not> (b < 2 \<or> n < b)" by simp
      from "1.IH" [OF this "1.prems"(1,2) e] have q: "n div b = m div b" .
      from modb [of n] modb [of m] d have r: "n mod b = m mod b" by (rule digitChar_inj)
      from q r show ?thesis by (metis div_mult_mod_eq)
    qed
  qed
qed

lemma showNat_inj: "showNat n = showNat m \<Longrightarrow> n = m"
  unfolding showNat_def by (rule digitsOf_inj) simp_all

lemma hashString_inj: "hashString s = hashString t \<longleftrightarrow> hashWord s = hashWord t"
proof
  assume "hashString s = hashString t"
  then have "unat (hashWord s) = unat (hashWord t)"
    unfolding hashString_def by (intro digitsOf_inj [of 36]) simp_all
  then show "hashWord s = hashWord t" by (rule unsigned_word_eqI)
next
  assume "hashWord s = hashWord t"
  then show "hashString s = hashString t" by (simp add: hashString_def)
qed

lemma split_last:
  assumes "a @ c # x = b @ c # y" "c \<notin> set x" "c \<notin> set y"
  shows "a = b \<and> x = y"
  using assms
proof (induction a arbitrary: b)
  case Nil
  then show ?case by (cases b) auto
next
  case (Cons e a)
  show ?case
  proof (cases b)
    case Nil
    with Cons.prems show ?thesis by auto
  next
    case (Cons d b')
    with Cons.prems Cons.IH [of b'] show ?thesis by auto
  qed
qed

lemma makeId_inj:
  assumes "makeId f1 i1 j1 t1 = makeId f2 i2 j2 t2"
  shows "f1 = f2 \<and> i1 = i2 \<and> j1 = j2 \<and> hashWord t1 = hashWord t2"
proof -
  have c: "\<And>n. 0x3A \<notin> set (showNat n)" "\<And>t. 0x3A \<notin> set (hashString t)"
    by (simp_all add: showNat_def hashString_def digitsOf_no_colon)
  from assms have
    "(f1 @ 0x3A # showNat i1 @ 0x3A # showNat j1) @ 0x3A # hashString t1
     = (f2 @ 0x3A # showNat i2 @ 0x3A # showNat j2) @ 0x3A # hashString t2"
    by (simp add: makeId_def js_def)
  from split_last [OF this c(2) c(2)]
  have h: "hashString t1 = hashString t2"
    and "(f1 @ 0x3A # showNat i1) @ 0x3A # showNat j1 = (f2 @ 0x3A # showNat i2) @ 0x3A # showNat j2"
    by simp_all
  from split_last [OF this(2) c(1) c(1)]
  have j: "showNat j1 = showNat j2" and "f1 @ 0x3A # showNat i1 = f2 @ 0x3A # showNat i2"
    by simp_all
  from split_last [OF this(2) c(1) c(1)]
  have "f1 = f2" "showNat i1 = showNat i2" by simp_all
  with j h show ?thesis by (simp add: showNat_inj hashString_inj)
qed

lemma distinct_concat_keyed:
  assumes "distinct (map key xs)"
    and "\<And>x. x \<in> set xs \<Longrightarrow> distinct (f x)"
    and "\<And>x y. x \<in> set xs \<Longrightarrow> y \<in> set (f x) \<Longrightarrow> tag y = key x"
  shows "distinct (concat (map f xs))"
  using assms
proof (induction xs)
  case Nil
  show ?case by simp
next
  case (Cons x xs)
  have "distinct (concat (map f xs))"
    using Cons.prems by (intro Cons.IH) auto
  moreover have "distinct (f x)" using Cons.prems(2) by simp
  moreover have "set (f x) \<inter> set (concat (map f xs)) = {}"
  proof (rule ccontr)
    assume "set (f x) \<inter> set (concat (map f xs)) \<noteq> {}"
    then obtain y x' where y: "y \<in> set (f x)" "x' \<in> set xs" "y \<in> set (f x')" by auto
    then have "tag y = key x" "tag y = key x'" using Cons.prems(3) by simp_all
    then have "key x = key x'" by simp
    from this y(2) have "key x \<in> key ` set xs" by (rule image_eqI)
    with Cons.prems(1) show False by simp
  qed
  ultimately show ?case by simp
qed


lemma id_makeSuggestion: "id' (makeSuggestion h f c idx i t) = makeId (frameId f) idx i t"
  by (simp add: makeSuggestion_def Let_def)

lemma ids_places:
  "map id' (allCandidates pg) = map (\<lambda>(f, idx, i, tx). makeId f idx i tx) (places pg)"
  by (simp add: allCandidates_def places_def map_concat comp_def split_def id_makeSuggestion)

lemma places_distinct:
  assumes "distinct (map frameId (frames pg))"
  shows "distinct (map (\<lambda>(f, idx, i, tx). (f, idx, i)) (places pg))"
proof -
  have inner: "\<And>(fid :: jsstring) (idx :: nat) (ss :: jsstring list).
                 distinct (map (\<lambda>(i, tx). (fid, idx, i)) (enumerate 0 ss))"
    by (auto simp: distinct_map inj_on_def in_set_enumerate_eq)
  have mid: "distinct (concat (map (\<lambda>(idx, c).
                 map (\<lambda>(i, tx). (fid, idx, i)) (enumerate 0 (extractSuggestionsFromComment c)))
                 (enumerate 0 cs)))" for fid :: jsstring and cs :: "comment_root list"
  proof (rule distinct_concat_keyed [where key = fst and tag = "\<lambda>y. fst (snd y)"])
    show "distinct (map fst (enumerate 0 cs))" by simp
  next
    fix x assume "x \<in> set (enumerate 0 cs)"
    show "distinct (case x of (idx, c) \<Rightarrow>
            map (\<lambda>(i, tx). (fid, idx, i)) (enumerate 0 (extractSuggestionsFromComment c)))"
      using inner by (cases x) simp
  next
    fix x y assume "x \<in> set (enumerate 0 cs)"
      and "y \<in> set (case x of (idx, c) \<Rightarrow>
            map (\<lambda>(i, tx). (fid, idx, i)) (enumerate 0 (extractSuggestionsFromComment c)))"
    then show "fst (snd y) = fst x" by (cases x) auto
  qed
  have "map (\<lambda>(f, idx, i, tx). (f, idx, i)) (places pg)
          = concat (map (\<lambda>frame. concat (map (\<lambda>(idx, c).
                 map (\<lambda>(i, tx). (frameId frame, idx, i))
                     (enumerate 0 (extractSuggestionsFromComment c)))
                 (enumerate 0 (findCommentRootsInTurboFrame frame)))) (frames pg))"
    by (simp add: places_def map_concat comp_def split_def)
  also have "distinct \<dots>"
  proof (rule distinct_concat_keyed [where key = frameId and tag = fst])
    show "distinct (map frameId (frames pg))" by (rule assms)
  next
    fix frame assume "frame \<in> set (frames pg)"
    show "distinct (concat (map (\<lambda>(idx, c).
                 map (\<lambda>(i, tx). (frameId frame, idx, i))
                     (enumerate 0 (extractSuggestionsFromComment c)))
                 (enumerate 0 (findCommentRootsInTurboFrame frame))))"
      by (rule mid)
  next
    fix frame y assume "frame \<in> set (frames pg)"
      and "y \<in> set (concat (map (\<lambda>(idx, c).
                 map (\<lambda>(i, tx). (frameId frame, idx, i))
                     (enumerate 0 (extractSuggestionsFromComment c)))
                 (enumerate 0 (findCommentRootsInTurboFrame frame))))"
    then show "fst y = frameId frame" by auto
  qed
  finally show ?thesis .
qed

lemma candidate_ids_distinct:
  assumes "distinct (map frameId (frames pg))"
  shows "distinct (map id' (allCandidates pg))"
proof -
  let ?place = "\<lambda>(f, idx, i, tx). (f, idx, i)"
  let ?mk = "\<lambda>(f :: jsstring, idx :: nat, i :: nat, tx :: jsstring). makeId f idx i tx"
  from places_distinct [OF assms]
  have d: "distinct (places pg)" and inj: "inj_on ?place (set (places pg))"
    by (simp_all add: distinct_map)
  have "inj_on ?mk (set (places pg))"
  proof (rule inj_onI)
    fix p q assume p: "p \<in> set (places pg)" and q: "q \<in> set (places pg)"
      and e: "?mk p = ?mk q"
    obtain f1 i1 j1 t1 where p': "p = (f1, i1, j1, t1)" by (cases p) auto
    obtain f2 i2 j2 t2 where q': "q = (f2, i2, j2, t2)" by (cases q) auto
    from e p' q' have "makeId f1 i1 j1 t1 = makeId f2 i2 j2 t2" by simp
    then have "f1 = f2 \<and> i1 = i2 \<and> j1 = j2" using makeId_inj by blast
    then have "?place p = ?place q" by (simp add: p' q')
    from inj this p q show "p = q" by (rule inj_onD)
  qed
  with d have "distinct (map ?mk (places pg))" by (simp add: distinct_map)
  then show ?thesis by (simp add: ids_places)
qed

text \<open>
  C6 (amended). Within one extraction pass over a page whose review threads have pairwise
  different ids, the ids of the suggestions are pairwise different. Two suggestions of the
  same thread, comment index and item index that differ in their text have the same id
  exactly when the 32-bit hashes of the two texts are equal.
\<close>

theorem ids_unique_per_place:
  "(distinct (map frameId (frames pg)) \<longrightarrow> distinct (map id' (extractAllSuggestions pg)))
   \<and> (id' (makeSuggestion h f c idx i t1) = id' (makeSuggestion h f c idx i t2)
        \<longleftrightarrow> hashWord t1 = hashWord t2)"
proof (intro conjI impI)
  assume "distinct (map frameId (frames pg))"
  then have "distinct (map id' (allCandidates pg))" by (rule candidate_ids_distinct)
  then show "distinct (map id' (extractAllSuggestions pg))"
    by (simp add: extractAllSuggestions_def Let_def distinct_map_filter)
next
  show "id' (makeSuggestion h f c idx i t1) = id' (makeSuggestion h f c idx i t2)
        \<longleftrightarrow> hashWord t1 = hashWord t2"
    using makeId_inj [of "frameId f" idx i t1 "frameId f" idx i t2]
    by (auto simp: id_makeSuggestion makeId_def hashString_def)
qed


lemma hash_collision: "hashWord (js ''costarring'') = hashWord (js ''liquid'')"
  by (simp add: hashWord_def hashStep_def js_def)

text \<open>
  C6 as stated fails: the texts \<open>costarring\<close> and \<open>liquid\<close> have the same hash, so
  two suggestions that differ only in these texts get the same id; and on a page where two
  threads carry the same id attribute one pass yields the same id twice.
\<close>

theorem id_collision:
  "js ''costarring'' \<noteq> js ''liquid''
   \<and> id' (makeSuggestion (js ''https://github.com/o/r/pull/4'') emptyFrame humanComment 0 0
            (js ''costarring''))
     = id' (makeSuggestion (js ''https://github.com/o/r/pull/4'') emptyFrame humanComment 0 0
            (js ''liquid''))
   \<and> \<not> distinct (map id' (extractAllSuggestions twinPage))"
proof -
  have a: "js ''costarring'' \<noteq> js ''liquid''" by (simp add: js_def)
  have b: "id' (makeSuggestion (js ''https://github.com/o/r/pull/4'') emptyFrame humanComment 0 0
            (js ''costarring''))
     = id' (makeSuggestion (js ''https://github.com/o/r/pull/4'') emptyFrame humanComment 0 0
            (js ''liquid''))"
    by (simp add: id_makeSuggestion makeId_def hashString_def hash_collision)
  have "allCandidates twinPage
     = [makeSuggestion (locationHref twinPage) (emptyFrame \<lparr> candidates := [humanComment] \<rparr>)
          humanComment 0 0 (js ''please add a test''),
        makeSuggestion (locationHref twinPage) (emptyFrame \<lparr> candidates := [humanComment] \<rparr>)
          humanComment 0 0 (js ''please add a test'')]"
    by (simp add: allCandidates_def twinPage_def findCommentRootsInTurboFrame_def
          segs authors hasBodyLike_examples enumerate_eq_zip upt_rec)
  then have "\<not> distinct (map id' (extractAllSuggestions twinPage))"
    by (simp add: extractAllSuggestions_def Let_def isCopilot_makeSuggestion segs authors hasBodyLike_examples)
  with a b show ?thesis by simp
qed

theorem ids_unique_per_place_witness:
  "distinct (map frameId (frames examplePage))
   \<and> distinct (map id' (extractAllSuggestions examplePage))
   \<and> hashWord (js ''costarring'') = hashWord (js ''liquid'')
   \<and> id' (makeSuggestion (locationHref examplePage) emptyFrame listComment 1 0 (js ''costarring''))
     = id' (makeSuggestion (locationHref examplePage) emptyFrame listComment 1 0 (js ''liquid''))"
proof -
  have d: "distinct (map frameId (frames examplePage))"
    by (simp add: examplePage_def frameId_def mixedLinesFrame_def emptyFrame_def js_def)
  from d ids_unique_per_place [of examplePage]
  have u: "distinct (map id' (extractAllSuggestions examplePage))" by blast
  from hash_collision
    ids_unique_per_place [of examplePage "locationHref examplePage" emptyFrame listComment 1 0
                             "js ''costarring''" "js ''liquid''"]
  have "id' (makeSuggestion (locationHref examplePage) emptyFrame listComment 1 0 (js ''costarring''))
     = id' (makeSuggestion (locationHref examplePage) emptyFrame listComment 1 0 (js ''liquid''))"
    by blast
  with d u hash_collision show ?thesis by simp
qed



subsection \<open>JSON round trip\<close>

subsubsection \<open>Strings\<close>

lemma hexValue_digitChar: "d < 16 \<Longrightarrow> hexValue (digitChar d) = Some d"
  by (simp add: hexValue_def word_le_nat_alt unat_digitChar)

lemma hex_digits_value:
  fixes n :: nat
  shows "((n div 4096 * 16 + n div 256 mod 16) * 16 + n div 16 mod 16) * 16 + n mod 16 = n"
proof -
  have a: "n div 4096 = n div 256 div 16" by (simp add: div_mult2_eq [symmetric])
  have b: "n div 256 = n div 16 div 16" by (simp add: div_mult2_eq [symmetric])
  have "n div 256 div 16 * 16 + n div 256 mod 16 = n div 256" by (rule div_mult_mod_eq)
  with a have 1: "n div 4096 * 16 + n div 256 mod 16 = n div 256" by simp
  have "n div 16 div 16 * 16 + n div 16 mod 16 = n div 16" by (rule div_mult_mod_eq)
  with b have 2: "n div 256 * 16 + n div 16 mod 16 = n div 16" by simp
  have 3: "n div 16 * 16 + n mod 16 = n" by (rule div_mult_mod_eq)
  show ?thesis by (simp only: 1 2 3)
qed

lemma unescapeAt_hex4: "unescapeAt (0x75 # hex4 c @ w) = Some (c, w)"
proof -
  have "unat c div 4096 < 16" using unsigned_less [of c, where 'a = nat] by simp
  then have e: "unescapeAt (0x75 # hex4 c @ w)
      = Some (of_nat (((unat c div 4096 * 16 + unat c div 256 mod 16) * 16
                        + unat c div 16 mod 16) * 16 + unat c mod 16), w)"
    by (simp add: unescapeAt_def hex4_def hexValue_digitChar del: of_nat_add of_nat_mult)
  show ?thesis unfolding e hex_digits_value by simp
qed

lemma unquote_literal:
  "c \<noteq> 0x22 \<Longrightarrow> \<not> c < 0x20 \<Longrightarrow> c \<noteq> 0x5C \<Longrightarrow>
     unquote (c # w)
       = (case unquote w of None \<Rightarrow> None | Some (s, rest) \<Rightarrow> Some (c # s, rest))"
  by simp

lemma unquote_escapeUnit:
  "unquote (escapeUnit c @ w)
     = (case unquote w of None \<Rightarrow> None | Some (s, rest) \<Rightarrow> Some (c # s, rest))"
proof -
  consider (b) "c = 0x08" | (t) "c = 0x09" | (n) "c = 0x0A" | (f) "c = 0x0C" | (r) "c = 0x0D"
    | (q) "c = 0x22" | (s) "c = 0x5C"
    | (u) "c \<noteq> 0x08" "c \<noteq> 0x09" "c \<noteq> 0x0A" "c \<noteq> 0x0C" "c \<noteq> 0x0D" "c \<noteq> 0x22" "c \<noteq> 0x5C"
          "c < 0x20 \<or> isSurrogate c"
    | (l) "c \<noteq> 0x08" "c \<noteq> 0x09" "c \<noteq> 0x0A" "c \<noteq> 0x0C" "c \<noteq> 0x0D" "c \<noteq> 0x22" "c \<noteq> 0x5C"
          "\<not> (c < 0x20 \<or> isSurrogate c)"
    by blast
  then show ?thesis
  proof cases
    case u
    then have "escapeUnit c = 0x5C # 0x75 # hex4 c" by (simp add: escapeUnit_def)
    then show ?thesis by (simp add: unescapeAt_hex4)
  next
    case l
    then have "escapeUnit c = [c]" by (simp add: escapeUnit_def)
    with l show ?thesis by simp
  qed (auto simp: escapeUnit_def unescapeAt_def)
qed

lemma unquote_escapeAll: "unquote (escapeAll s @ 0x22 # rest) = Some (s, rest)"
proof (induction s rule: escapeAll.induct)
  case 1
  show ?case by simp
next
  case (2 c)
  show ?case by (simp add: unquote_escapeUnit)
next
  case (3 c d cs)
  show ?case
  proof (cases "0xD800 \<le> c \<and> c \<le> 0xDBFF \<and> 0xDC00 \<le> d \<and> d \<le> 0xDFFF")
    case True
    then have c: "c \<noteq> 0x22" "\<not> c < 0x20" "c \<noteq> 0x5C" and d: "d \<noteq> 0x22" "\<not> d < 0x20" "d \<noteq> 0x5C"
      by (auto simp: word_le_nat_alt word_less_nat_alt)
    from True "3.IH"(1) have ih: "unquote (escapeAll cs @ 0x22 # rest) = Some (cs, rest)" by simp
    have "escapeAll (c # d # cs) = c # d # escapeAll cs"
      using True by simp
    then have "escapeAll (c # d # cs) @ 0x22 # rest = c # d # (escapeAll cs @ 0x22 # rest)"
      by simp
    then show ?thesis
      by (simp only: unquote_literal [OF c] unquote_literal [OF d] ih) simp
  next
    case False
    with "3.IH"(2) have ih: "unquote (escapeAll (d # cs) @ 0x22 # rest) = Some (d # cs, rest)"
      by simp
    have "escapeAll (c # d # cs) = escapeUnit c @ escapeAll (d # cs)"
      by (simp only: escapeAll.simps False if_False)
    then have "escapeAll (c # d # cs) @ 0x22 # rest
        = escapeUnit c @ (escapeAll (d # cs) @ 0x22 # rest)" by (simp only: append_assoc)
    then show ?thesis by (simp only: unquote_escapeUnit ih) simp
  qed
qed

lemma unquote_quoteJSON: "unquote (tl (quoteJSON s) @ rest) = Some (s, rest)"
  by (simp add: quoteJSON_def unquote_escapeAll)

subsubsection \<open>Numbers\<close>

lemma isDigit_digitChar: "d < 10 \<Longrightarrow> isDigit (digitChar d)"
  by (simp add: isDigit_def word_le_nat_alt unat_digitChar)

lemma digitsValue_snoc: "digitsValue (ds @ [c]) = 10 * digitsValue ds + (unat c - 48)"
  by (simp add: digitsValue_def)

lemma decimal_digits:
  "b = 10 \<Longrightarrow> (\<forall>c\<in>set (digitsOf b n). isDigit c) \<and> digitsValue (digitsOf b n) = n
                \<and> (0 < n \<longrightarrow> hd (digitsOf b n) \<noteq> 0x30)"
proof (induction b n rule: digitsOf.induct)
  case (1 b n)
  show ?case
  proof (cases "n < 10")
    case True
    with "1.prems" have e: "digitsOf b n = [digitChar n]" by (subst digitsOf.simps) simp
    have "0 < n \<longrightarrow> digitChar n \<noteq> 0x30"
    proof
      assume "0 < n"
      show "digitChar n \<noteq> 0x30"
      proof
        assume "digitChar n = 0x30"
        then have "unat (digitChar n) = unat (0x30 :: jschar)" by simp
        with True \<open>0 < n\<close> show False by (simp add: unat_digitChar)
      qed
    qed
    with True e show ?thesis
      by (simp add: isDigit_digitChar digitsValue_def unat_digitChar)
  next
    case False
    with "1.prems" have e: "digitsOf b n = digitsOf b (n div 10) @ [digitChar (n mod 10)]"
      by (subst digitsOf.simps) simp
    from False "1.prems" have "\<not> (b < 2 \<or> n < b)" by simp
    from "1.IH" [OF this "1.prems"]
    have ih: "\<forall>c\<in>set (digitsOf b (n div 10)). isDigit c"
      "digitsValue (digitsOf b (n div 10)) = n div 10"
      "0 < n div 10 \<longrightarrow> hd (digitsOf b (n div 10)) \<noteq> 0x30"
      using "1.prems" by simp_all
    have m: "n mod 10 < 10" by simp
    from False have "0 < n div 10" by (simp add: div_greater_zero_iff)
    with ih(3) have "hd (digitsOf b (n div 10)) \<noteq> 0x30" by simp
    then have "hd (digitsOf b n) \<noteq> 0x30"
      unfolding e using digitsOf_nonempty [of b "n div 10"] by simp
    moreover have "digitsValue (digitsOf b n) = n"
      unfolding e digitsValue_snoc ih(2) using m by (simp add: unat_digitChar)
    moreover have "\<forall>c\<in>set (digitsOf b n). isDigit c"
      unfolding e using ih(1) isDigit_digitChar [OF m] by simp
    ultimately show ?thesis by simp
  qed
qed

lemma showNat_digits:
  "\<forall>c\<in>set (showNat n). isDigit c" "digitsValue (showNat n) = n"
  "0 < n \<Longrightarrow> hd (showNat n) \<noteq> 0x30" "showNat n \<noteq> []"
  using decimal_digits [of 10 n] by (simp_all add: showNat_def digitsOf_nonempty)

lemma showNat_zero: "showNat 0 = [0x30]"
  by (simp add: showNat_def digitsOf.simps [of 10 0] digitChar_def)

lemma takeWhile_digits:
  assumes "okAfterNumber rest"
  shows "takeWhile isDigit (showNat n @ rest) = showNat n"
proof -
  from assms have "takeWhile isDigit rest = []"
    by (cases rest) (auto simp: okAfterNumber_def)
  with showNat_digits(1) [of n] show ?thesis by simp
qed

lemma okAfterNumber_case:
  "okAfterNumber rest \<Longrightarrow>
     \<not> (case rest of c # r' \<Rightarrow> isDigit c \<or> c = 0x2E \<or> c = 0x65 \<or> c = 0x45 | [] \<Rightarrow> False)"
  by (cases rest) (auto simp: okAfterNumber_def)

lemma parseNumber_showNat:
  assumes "okAfterNumber rest"
  shows "parseNumber (showNat n @ rest) = Some (JNum (int n), rest)"
proof -
  obtain d ds where s: "showNat n = d # ds" using showNat_digits(4) [of n] by (cases "showNat n") auto
  with showNat_digits(1) [of n] have d: "isDigit d" by simp
  then have nd: "d \<noteq> 0x2D" by (auto simp: isDigit_def)
  show ?thesis
  proof (cases "n = 0")
    case True
    with s have "d = 0x30" "ds = []" by (simp_all add: showNat_zero)
    with True okAfterNumber_case [OF assms] show ?thesis
      by (simp add: parseNumber_def showNat_zero Let_def isDigit_def digitsValue_def)
  next
    case False
    with showNat_digits(3) [of n] s have nz: "d \<noteq> 0x30" by simp
    have t: "takeWhile isDigit (d # ds @ rest) = d # ds"
      using takeWhile_digits [OF assms, of n] s by simp
    have v: "digitsValue (d # ds) = n" using showNat_digits(2) [of n] s by simp
    show ?thesis
      unfolding s using nd d nz okAfterNumber_case [OF assms]
      by (simp add: parseNumber_def Let_def t v del: takeWhile.simps)
  qed
qed

lemma parseNumber_showInt:
  assumes "okAfterNumber rest"
  shows "parseNumber (showInt i @ rest) = Some (JNum i, rest)"
proof (cases "i < 0")
  case False
  then show ?thesis using parseNumber_showNat [OF assms, of "nat i"] by (simp add: showInt_def)
next
  case True
  define n where "n = nat (- i)"
  from True have n: "0 < n" "i = - int n" by (simp_all add: n_def)
  obtain d ds where s: "showNat n = d # ds" using showNat_digits(4) [of n] by (cases "showNat n") auto
  with showNat_digits(1) [of n] have d: "isDigit d" by simp
  from showNat_digits(3) [OF n(1)] s have nz: "d \<noteq> 0x30" by simp
  have t: "takeWhile isDigit (d # ds @ rest) = d # ds"
    using takeWhile_digits [OF assms, of n] s by simp
  have v: "digitsValue (d # ds) = n" using showNat_digits(2) [of n] s by simp
  have "showInt i = 0x2D # d # ds" using True s by (simp add: showInt_def n_def)
  then show ?thesis
    using d nz okAfterNumber_case [OF assms] n(2)
    by (simp add: parseNumber_def Let_def t v del: takeWhile.simps)
qed

lemma showInt_head:
  "\<exists>c cs. showInt i = c # cs \<and> (c = 0x2D \<or> isDigit c)"
proof (cases "i < 0")
  case True
  then show ?thesis by (simp add: showInt_def)
next
  case False
  obtain d ds where s: "showNat (nat i) = d # ds"
    using showNat_digits(4) [of "nat i"] by (cases "showNat (nat i)") auto
  with showNat_digits(1) [of "nat i"] have "isDigit d" by simp
  with s False show ?thesis by (simp add: showInt_def)
qed

subsubsection \<open>Values\<close>

lemma skipSpace_start: "\<not> isJsonSpace c \<Longrightarrow> skipSpace (c # cs) = c # cs"
  by (simp add: skipSpace_def)

lemma dropWhile_replicate_space:
  "dropWhile isJsonSpace (replicate m 0x20 @ s) = dropWhile isJsonSpace s"
  by (induction m) (simp_all add: isJsonSpace_def)

lemma skipSpace_newlineIndent: "skipSpace (newlineIndent k l @ s) = skipSpace s"
  by (simp add: skipSpace_def newlineIndent_def dropWhile_replicate_space)
     (simp add: isJsonSpace_def)

lemma newlineIndent_ok: "c \<noteq> 0x2E \<Longrightarrow> c \<noteq> 0x65 \<Longrightarrow> c \<noteq> 0x45 \<Longrightarrow> \<not> isDigit c \<Longrightarrow>
  okAfterNumber (newlineIndent k l @ c # rest)"
  by (simp add: okAfterNumber_def newlineIndent_def isDigit_def)

lemma serialize_head: "\<exists>c cs. serialize k lvl v = c # cs \<and> valueStart c"
proof (cases v)
  case (JNum i)
  from showInt_head [of i] obtain c cs where "showInt i = c # cs" "c = 0x2D \<or> isDigit c"
    by blast
  with JNum show ?thesis by (auto simp: valueStart_def isJsonSpace_def isDigit_def)
qed (auto simp: valueStart_def isJsonSpace_def js_def quoteJSON_def)

lemma join_head: "\<exists>u. join sep (a # zs) = a @ u"
  by (cases zs) auto

lemma skipSpace_serialize: "skipSpace (serialize k lvl v @ r) = serialize k lvl v @ r"
proof -
  from serialize_head [of k lvl v] obtain c cs where "serialize k lvl v = c # cs" "valueStart c"
    by blast
  then show ?thesis by (simp add: skipSpace_start valueStart_def)
qed

lemma parseValue_literal:
  "parseValue (Suc n) (js ''null'' @ rest) = Some (JNull, rest)"
  "parseValue (Suc n) (js ''true'' @ rest) = Some (JBool True, rest)"
  "parseValue (Suc n) (js ''false'' @ rest) = Some (JBool False, rest)"
  by (simp_all add: js_def startsWith_def)

lemma parseValue_string:
  "parseValue (Suc n) (quoteJSON s @ rest) = Some (JStr s, rest)"
  by (simp add: quoteJSON_def unquote_escapeAll)

lemma parseValue_number:
  assumes "okAfterNumber rest"
  shows "parseValue (Suc n) (showInt i @ rest) = Some (JNum i, rest)"
proof -
  from showInt_head [of i] obtain c cs where s: "showInt i = c # cs" and c: "c = 0x2D \<or> isDigit c"
    by blast
  from c have "c \<noteq> 0x22" "c \<noteq> 0x5B" "c \<noteq> 0x7B" "c \<noteq> 0x6E" "c \<noteq> 0x74" "c \<noteq> 0x66"
    by (auto simp: isDigit_def)
  then have "parseValue (Suc n) (c # cs @ rest) = parseNumber (c # cs @ rest)"
    by (simp add: startsWith_def js_def)
  with parseNumber_showInt [OF assms, of i] s show ?thesis by simp
qed

text \<open>The elements of a non-empty array, up to the closing bracket.\<close>

lemma roundtrip_elements:
  assumes ih: "\<And>x n lvl rest. x \<in> set xs \<Longrightarrow> need x < n \<Longrightarrow> okAfterNumber rest \<Longrightarrow>
                 parseValue n (serialize k lvl x @ rest) = Some (x, rest)"
    and "xs \<noteq> []"
    and "sum_list (map (\<lambda>x. Suc (need x)) xs) < n"
  shows "parseElements n
           (join (0x2C # newlineIndent k l1) (map (serialize k l1) xs)
            @ newlineIndent k l0 @ 0x5D # rest) = Some (xs, rest)"
  using assms
proof (induction xs arbitrary: n)
  case Nil
  then show ?case by simp
next
  case (Cons x xs)
  from Cons.prems(3) obtain m where n: "n = Suc m" by (cases n) auto
  with Cons.prems(3) have nx: "need x < m" and ns: "sum_list (map (\<lambda>x. Suc (need x)) xs) < m"
    by simp_all
  show ?case
  proof (cases xs)
    case Nil
    have ok: "okAfterNumber (newlineIndent k l0 @ 0x5D # rest)"
      by (rule newlineIndent_ok) (simp_all add: isDigit_def)
    have "parseValue m (serialize k l1 x @ newlineIndent k l0 @ 0x5D # rest)
            = Some (x, newlineIndent k l0 @ 0x5D # rest)"
      using nx ok by (intro Cons.prems(1)) simp_all
    moreover have "skipSpace (newlineIndent k l0 @ 0x5D # rest) = 0x5D # rest"
      by (simp add: skipSpace_newlineIndent skipSpace_start isJsonSpace_def)
    ultimately show ?thesis using Nil n by simp
  next
    case (Cons y ys)
    define tail where "tail = join (0x2C # newlineIndent k l1) (map (serialize k l1) (y # ys))
                               @ newlineIndent k l0 @ 0x5D # rest"
    have ok: "okAfterNumber (0x2C # newlineIndent k l1 @ tail)"
      by (simp add: okAfterNumber_def isDigit_def)
    have pv: "parseValue m (serialize k l1 x @ 0x2C # newlineIndent k l1 @ tail)
            = Some (x, 0x2C # newlineIndent k l1 @ tail)"
      using nx ok by (intro Cons.prems(1)) simp_all
    have sk: "skipSpace (0x2C # newlineIndent k l1 @ tail) = 0x2C # newlineIndent k l1 @ tail"
      by (simp add: skipSpace_start isJsonSpace_def)
    obtain u where "join (0x2C # newlineIndent k l1) (map (serialize k l1) (y # ys))
                      = serialize k l1 y @ u"
      using join_head [of "0x2C # newlineIndent k l1" "serialize k l1 y" "map (serialize k l1) ys"]
      by auto
    then have "tail = serialize k l1 y @ (u @ newlineIndent k l0 @ 0x5D # rest)"
      by (simp add: tail_def)
    then have "skipSpace tail = tail" by (simp only: skipSpace_serialize)
    then have sk2: "skipSpace (newlineIndent k l1 @ tail) = tail"
      by (simp add: skipSpace_newlineIndent)
    have "parseElements m tail = Some (xs, rest)"
      unfolding tail_def Cons [symmetric]
      using Cons.prems(1) ns Cons by (intro Cons.IH) simp_all
    with pv sk sk2 have "parseElements (Suc m) (serialize k l1 x @ 0x2C # newlineIndent k l1 @ tail)
        = Some (x # xs, rest)" by simp
    moreover have "join (0x2C # newlineIndent k l1) (map (serialize k l1) (x # xs))
            @ newlineIndent k l0 @ 0x5D # rest
          = serialize k l1 x @ 0x2C # newlineIndent k l1 @ tail"
      by (simp add: tail_def Cons)
    ultimately show ?thesis using n by simp
  qed
qed

lemma parseMembers_step:
  assumes "parseValue m (serialize k l1 v @ after) = Some (v, after)"
  shows "parseMembers (Suc m) (memberText k l1 (key, v) @ after)
           = (case skipSpace after of
                [] \<Rightarrow> None
              | c # cs \<Rightarrow>
                 if c = 0x2C then
                   (case parseMembers m (skipSpace cs) of
                      None \<Rightarrow> None
                    | Some (ms, r') \<Rightarrow> Some ((key, v) # ms, r'))
                 else if c = 0x7D then Some ([(key, v)], cs)
                 else None)"
proof -
  have t: "memberText k l1 (key, v) @ after
        = 0x22 # (escapeAll key @ 0x22 # (0x3A # (if k = 0 then [] else [0x20])
                   @ serialize k l1 v @ after))"
    by (simp add: memberText_def quoteJSON_def js_def)
  have s1: "skipSpace (0x3A # (if k = 0 then [] else [0x20]) @ serialize k l1 v @ after)
             = 0x3A # (if k = 0 then [] else [0x20]) @ serialize k l1 v @ after"
    by (simp add: skipSpace_start isJsonSpace_def)
  have "skipSpace ([0x20] @ serialize k l1 v @ after) = skipSpace (serialize k l1 v @ after)"
    by (simp add: skipSpace_def isJsonSpace_def)
  then have s2: "skipSpace ((if k = 0 then [] else [0x20]) @ serialize k l1 v @ after)
             = serialize k l1 v @ after"
    by (simp add: skipSpace_serialize)
  show ?thesis
    unfolding t
    by (simp only: parseMembers.simps list.case unquote_escapeAll option.case prod.case s1 s2
                   assms simp_thms if_False if_True)
qed

lemma memberText_head: "\<exists>u. memberText k l1 m = 0x22 # u"
  by (simp add: memberText_def quoteJSON_def)

lemma roundtrip_members:
  assumes ih: "\<And>m n lvl rest. m \<in> set ms \<Longrightarrow> need (snd m) < n \<Longrightarrow> okAfterNumber rest \<Longrightarrow>
                 parseValue n (serialize k lvl (snd m) @ rest) = Some (snd m, rest)"
    and "ms \<noteq> []"
    and "sum_list (map (\<lambda>m. Suc (need (snd m))) ms) < n"
  shows "parseMembers n
           (join (0x2C # newlineIndent k l1) (map (memberText k l1) ms)
            @ newlineIndent k l0 @ 0x7D # rest) = Some (ms, rest)"
  using assms
proof (induction ms arbitrary: n)
  case Nil
  then show ?case by simp
next
  case (Cons x ms)
  obtain key v where x: "x = (key, v)" by (cases x) auto
  from Cons.prems(3) obtain m where n: "n = Suc m" by (cases n) auto
  with Cons.prems(3) x have nx: "need v < m"
    and ns: "sum_list (map (\<lambda>m. Suc (need (snd m))) ms) < m"
    by simp_all
  show ?case
  proof (cases ms)
    case Nil
    have ok: "okAfterNumber (newlineIndent k l0 @ 0x7D # rest)"
      by (rule newlineIndent_ok) (simp_all add: isDigit_def)
    have "parseValue m (serialize k l1 (snd x) @ newlineIndent k l0 @ 0x7D # rest)
            = Some (snd x, newlineIndent k l0 @ 0x7D # rest)"
      using nx ok x by (intro Cons.prems(1)) simp_all
    then have pv: "parseValue m (serialize k l1 v @ newlineIndent k l0 @ 0x7D # rest)
            = Some (v, newlineIndent k l0 @ 0x7D # rest)" by (simp add: x)
    have "skipSpace (newlineIndent k l0 @ 0x7D # rest) = 0x7D # rest"
      by (simp add: skipSpace_newlineIndent skipSpace_start isJsonSpace_def)
    with parseMembers_step [OF pv, of key]
    have "parseMembers (Suc m) (memberText k l1 (key, v) @ newlineIndent k l0 @ 0x7D # rest)
            = Some ([(key, v)], rest)" by simp
    with Nil n x show ?thesis by simp
  next
    case (Cons y ys)
    define tail where "tail = join (0x2C # newlineIndent k l1) (map (memberText k l1) (y # ys))
                               @ newlineIndent k l0 @ 0x7D # rest"
    have ok: "okAfterNumber (0x2C # newlineIndent k l1 @ tail)"
      by (simp add: okAfterNumber_def isDigit_def)
    have "parseValue m (serialize k l1 (snd x) @ 0x2C # newlineIndent k l1 @ tail)
            = Some (snd x, 0x2C # newlineIndent k l1 @ tail)"
      using nx ok x by (intro Cons.prems(1)) simp_all
    then have pv: "parseValue m (serialize k l1 v @ 0x2C # newlineIndent k l1 @ tail)
            = Some (v, 0x2C # newlineIndent k l1 @ tail)" by (simp add: x)
    have sk: "skipSpace (0x2C # newlineIndent k l1 @ tail) = 0x2C # newlineIndent k l1 @ tail"
      by (simp add: skipSpace_start isJsonSpace_def)
    obtain u where "join (0x2C # newlineIndent k l1) (map (memberText k l1) (y # ys))
                      = memberText k l1 y @ u"
      using join_head [of "0x2C # newlineIndent k l1" "memberText k l1 y"
                          "map (memberText k l1) ys"]
      by auto
    moreover obtain u' where "memberText k l1 y = 0x22 # u'" using memberText_head by blast
    ultimately have "tail = 0x22 # (u' @ u @ newlineIndent k l0 @ 0x7D # rest)"
      by (simp add: tail_def)
    then have "skipSpace tail = tail" by (simp add: skipSpace_start isJsonSpace_def)
    then have sk2: "skipSpace (newlineIndent k l1 @ tail) = tail"
      by (simp add: skipSpace_newlineIndent)
    have "parseMembers m tail = Some (ms, rest)"
      unfolding tail_def Cons [symmetric]
      using Cons.prems(1) ns Cons by (intro Cons.IH) simp_all
    with parseMembers_step [OF pv, of key] sk sk2
    have "parseMembers (Suc m) (memberText k l1 (key, v) @ 0x2C # newlineIndent k l1 @ tail)
        = Some ((key, v) # ms, rest)" by simp
    moreover have "join (0x2C # newlineIndent k l1) (map (memberText k l1) (x # ms))
            @ newlineIndent k l0 @ 0x7D # rest
          = memberText k l1 (key, v) @ 0x2C # newlineIndent k l1 @ tail"
      by (simp add: tail_def Cons x)
    ultimately show ?thesis using n x by (simp del: parseMembers.simps)
  qed
qed

lemma serialize_JArr:
  "xs \<noteq> [] \<Longrightarrow> serialize k lvl (JArr xs) @ rest
     = 0x5B # newlineIndent k (Suc lvl)
       @ (join (0x2C # newlineIndent k (Suc lvl)) (map (serialize k (Suc lvl)) xs)
          @ newlineIndent k lvl @ 0x5D # rest)"
  by (simp add: js_def)

lemma serialize_JObj:
  "ms \<noteq> [] \<Longrightarrow> serialize k lvl (JObj ms) @ rest
     = 0x7B # newlineIndent k (Suc lvl)
       @ (join (0x2C # newlineIndent k (Suc lvl)) (map (memberText k (Suc lvl)) ms)
          @ newlineIndent k lvl @ 0x7D # rest)"
proof -
  have "(\<lambda>m. quoteJSON (fst m) @ js '':'' @ (if k = 0 then [] else js '' '')
                          @ serialize k (Suc lvl) (snd m)) = memberText k (Suc lvl)"
    by (rule ext) (simp add: memberText_def)
  then show "ms \<noteq> [] \<Longrightarrow> ?thesis" by (simp add: js_def)
qed

lemma roundtrip_value:
  "need v < n \<Longrightarrow> okAfterNumber rest \<Longrightarrow>
     parseValue n (serialize k lvl v @ rest) = Some (v, rest)"
proof (induction v arbitrary: n lvl rest)
  case JNull
  then obtain m where "n = Suc m" by (cases n) auto
  then show ?case by (simp add: parseValue_literal del: parseValue.simps)
next
  case (JBool b)
  then obtain m where "n = Suc m" by (cases n) auto
  then show ?case by (simp add: parseValue_literal del: parseValue.simps)
next
  case (JNum i)
  then obtain m where "n = Suc m" by (cases n) auto
  with JNum show ?case by (simp add: parseValue_number del: parseValue.simps)
next
  case (JStr s)
  then obtain m where "n = Suc m" by (cases n) auto
  then show ?case by (simp add: parseValue_string del: parseValue.simps)
next
  case (JArr xs)
  from JArr.prems obtain m where n: "n = Suc m" by (cases n) auto
  show ?case
  proof (cases "xs = []")
    case True
    with n show ?thesis by (simp add: js_def skipSpace_start isJsonSpace_def)
  next
    case False
    define body where "body = join (0x2C # newlineIndent k (Suc lvl)) (map (serialize k (Suc lvl)) xs)
                               @ newlineIndent k lvl @ 0x5D # rest"
    from JArr.prems n have "sum_list (map (\<lambda>x. Suc (need x)) xs) < m" by simp
    with False have pe: "parseElements m body = Some (xs, rest)"
      unfolding body_def using JArr.IH by (intro roundtrip_elements) simp_all
    obtain x xs' where xs: "xs = x # xs'" using False by (cases xs) auto
    obtain u where "join (0x2C # newlineIndent k (Suc lvl)) (map (serialize k (Suc lvl)) xs)
                     = serialize k (Suc lvl) x @ u"
      unfolding xs
      using join_head [of "0x2C # newlineIndent k (Suc lvl)" "serialize k (Suc lvl) x"
                          "map (serialize k (Suc lvl)) xs'"] by auto
    moreover obtain c cs where "serialize k (Suc lvl) x = c # cs" "valueStart c"
      using serialize_head by blast
    ultimately have b: "body = c # (cs @ u @ newlineIndent k lvl @ 0x5D # rest)"
      and c: "\<not> isJsonSpace c" "c \<noteq> 0x5D"
      by (simp_all add: body_def valueStart_def)
    then have "skipSpace (newlineIndent k (Suc lvl) @ body) = body"
      by (simp add: skipSpace_newlineIndent skipSpace_start)
    with b c pe have "parseValue (Suc m) (0x5B # newlineIndent k (Suc lvl) @ body)
        = Some (JArr xs, rest)" by simp
    then show ?thesis unfolding n serialize_JArr [OF False] body_def .
  qed
next
  case (JObj ms)
  from JObj.prems obtain m where n: "n = Suc m" by (cases n) auto
  show ?case
  proof (cases "ms = []")
    case True
    with n show ?thesis by (simp add: js_def skipSpace_start isJsonSpace_def)
  next
    case False
    define body where "body = join (0x2C # newlineIndent k (Suc lvl)) (map (memberText k (Suc lvl)) ms)
                               @ newlineIndent k lvl @ 0x7D # rest"
    from JObj.prems n have "sum_list (map (\<lambda>m. Suc (need (snd m))) ms) < m" by simp
    moreover have "\<And>e n lvl rest. e \<in> set ms \<Longrightarrow> need (snd e) < n \<Longrightarrow> okAfterNumber rest \<Longrightarrow>
                 parseValue n (serialize k lvl (snd e) @ rest) = Some (snd e, rest)"
    proof -
      fix e :: "jsstring \<times> json" and n lvl rest
      assume "e \<in> set ms" "need (snd e) < n" "okAfterNumber rest"
      moreover have "snd e \<in> Basic_BNFs.snds e" by (cases e) simp
      ultimately show "parseValue n (serialize k lvl (snd e) @ rest) = Some (snd e, rest)"
        by (intro JObj.IH)
    qed
    ultimately have pe: "parseMembers m body = Some (ms, rest)"
      unfolding body_def using False by (intro roundtrip_members) simp_all
    obtain x ms' where ms: "ms = x # ms'" using False by (cases ms) auto
    obtain u where "join (0x2C # newlineIndent k (Suc lvl)) (map (memberText k (Suc lvl)) ms)
                     = memberText k (Suc lvl) x @ u"
      unfolding ms
      using join_head [of "0x2C # newlineIndent k (Suc lvl)" "memberText k (Suc lvl) x"
                          "map (memberText k (Suc lvl)) ms'"] by auto
    moreover obtain u' where "memberText k (Suc lvl) x = 0x22 # u'" using memberText_head by blast
    ultimately have b: "body = 0x22 # (u' @ u @ newlineIndent k lvl @ 0x7D # rest)"
      by (simp add: body_def)
    then have "skipSpace (newlineIndent k (Suc lvl) @ body) = body"
      by (simp add: skipSpace_newlineIndent skipSpace_start isJsonSpace_def)
    with b pe have "parseValue (Suc m) (0x7B # newlineIndent k (Suc lvl) @ body)
        = Some (JObj ms, rest)" by simp
    then show ?thesis unfolding n serialize_JObj [OF False] body_def .
  qed
qed

lemma length_join_ge:
  "sep \<noteq> [] \<Longrightarrow> sum_list (map (\<lambda>y. Suc (length y)) ys) \<le> Suc (length (join sep ys))"
proof (induction sep ys rule: join.induct)
  case (3 sep x y ys)
  then have "sum_list (map (\<lambda>y. Suc (length y)) (y # ys)) \<le> Suc (length (join sep (y # ys)))"
    by simp
  moreover from "3.prems" have "1 \<le> length sep" by (cases sep) auto
  ultimately show ?case by simp
qed simp_all

lemma sum_list_le:
  fixes f g :: "'a \<Rightarrow> nat"
  shows "(\<And>x. x \<in> set xs \<Longrightarrow> f x \<le> g x) \<Longrightarrow> sum_list (map f xs) \<le> sum_list (map g xs)"
  by (induction xs) (auto intro: add_mono)

lemma need_le_length: "need v \<le> length (serialize k lvl v)"
proof (induction v arbitrary: lvl)
  case (JArr xs)
  show ?case
  proof (cases "xs = []")
    case True
    then show ?thesis by (simp add: js_def)
  next
    case False
    have "sum_list (map (\<lambda>x. Suc (need x)) xs)
            \<le> sum_list (map (\<lambda>x. Suc (length (serialize k (Suc lvl) x))) xs)"
      using JArr.IH by (intro sum_list_le) simp
    also have "\<dots> = sum_list (map (\<lambda>y. Suc (length y)) (map (serialize k (Suc lvl)) xs))"
      by (simp add: comp_def)
    also have "\<dots> \<le> Suc (length (join (0x2C # newlineIndent k (Suc lvl))
                                   (map (serialize k (Suc lvl)) xs)))"
      by (rule length_join_ge) simp
    finally show ?thesis using False by (simp add: js_def)
  qed
next
  case (JObj ms)
  show ?case
  proof (cases "ms = []")
    case True
    then show ?thesis by (simp add: js_def)
  next
    case False
    have "sum_list (map (\<lambda>m. Suc (need (snd m))) ms)
            \<le> sum_list (map (\<lambda>m. Suc (length (memberText k (Suc lvl) m))) ms)"
    proof (rule sum_list_le)
      fix m assume "m \<in> set ms"
      moreover have "snd m \<in> Basic_BNFs.snds m" by (cases m) simp
      ultimately have "need (snd m) \<le> length (serialize k (Suc lvl) (snd m))" by (rule JObj.IH)
      then show "Suc (need (snd m)) \<le> Suc (length (memberText k (Suc lvl) m))"
        by (simp add: memberText_def)
    qed
    also have "\<dots> = sum_list (map (\<lambda>y. Suc (length y)) (map (memberText k (Suc lvl)) ms))"
      by (simp add: comp_def)
    also have "\<dots> \<le> Suc (length (join (0x2C # newlineIndent k (Suc lvl))
                                   (map (memberText k (Suc lvl)) ms)))"
      by (rule length_join_ge) simp
    finally have "need (JObj ms) \<le> length (serialize k lvl (JObj ms) @ [])"
      unfolding serialize_JObj [OF False] by simp
    then show ?thesis by simp
  qed
qed simp_all

text \<open>Parsing what \<open>JSON.stringify\<close> wrote gives the value back, with or without
  indentation.\<close>

lemma parseJSON_serialize: "parseJSON (serialize k 0 v) = Some v"
proof -
  have "need v < 2 * length (serialize k 0 v) + 2"
    using need_le_length [of v k 0] by simp
  moreover have "okAfterNumber []" by (simp add: okAfterNumber_def)
  ultimately have "parseValue (2 * length (serialize k 0 v) + 2) (serialize k 0 v @ [])
                     = Some (v, [])" by (rule roundtrip_value)
  moreover have "skipSpace (serialize k 0 v) = serialize k 0 v"
    using skipSpace_serialize [of k 0 v "[]"] by simp
  ultimately show ?thesis by (simp add: parseJSON_def skipSpace_def)
qed


subsection \<open>The JSON builder\<close>

lemma getProp_normalized:
  "getProp (normalized s) (js ''filePath'') = Some (stringOrNull (filePath s))"
  "getProp (normalized s) (js ''lineStart'') = Some (numberOrNull (lineStart s))"
  "getProp (normalized s) (js ''lineEnd'') = Some (numberOrNull (lineEnd s))"
  "getProp (normalized s) (js ''codeMentioned'') = Some (stringOrNull (codeMentioned s))"
  "getProp (normalized s) (js ''reviewText'') = Some (stringOrNull (reviewText s))"
  "getProp (normalized s) (js ''suggestedChange'') = Some (stringOrNull (suggestedChange s))"
  by (simp_all add: normalized_def js_def)

text \<open>
  C4. For every list of selected suggestion records, parsing the string that
  \<open>buildJSON\<close> produces gives an object whose \<open>suggestions\<close> array has the length of
  the list, and in each record of the array every optional field (\<open>filePath\<close>,
  \<open>lineStart\<close>, \<open>lineEnd\<close>, \<open>codeMentioned\<close>, \<open>reviewText\<close>,
  \<open>suggestedChange\<close>) is a member: with its value when the field is present, and with
  an explicit \<open>null\<close> when it is absent.
\<close>

theorem json_round_trip:
  "\<exists>doc sugg.
     parseJSON (buildJSON prUrl items) = Some doc
     \<and> getProp doc (js ''suggestions'') = Some (JArr sugg)
     \<and> length sugg = length items
     \<and> (\<forall>i<length items.
           getProp (sugg ! i) (js ''filePath'') = Some (stringOrNull (filePath (items ! i)))
         \<and> getProp (sugg ! i) (js ''lineStart'') = Some (numberOrNull (lineStart (items ! i)))
         \<and> getProp (sugg ! i) (js ''lineEnd'') = Some (numberOrNull (lineEnd (items ! i)))
         \<and> getProp (sugg ! i) (js ''codeMentioned'')
             = Some (stringOrNull (codeMentioned (items ! i)))
         \<and> getProp (sugg ! i) (js ''reviewText'') = Some (stringOrNull (reviewText (items ! i)))
         \<and> getProp (sugg ! i) (js ''suggestedChange'')
             = Some (stringOrNull (suggestedChange (items ! i)))
         \<and> (filePath (items ! i) = None
              \<longrightarrow> getProp (sugg ! i) (js ''filePath'') = Some JNull)
         \<and> (lineStart (items ! i) = None
              \<longrightarrow> getProp (sugg ! i) (js ''lineStart'') = Some JNull)
         \<and> (lineEnd (items ! i) = None
              \<longrightarrow> getProp (sugg ! i) (js ''lineEnd'') = Some JNull)
         \<and> (codeMentioned (items ! i) = None
              \<longrightarrow> getProp (sugg ! i) (js ''codeMentioned'') = Some JNull)
         \<and> (reviewText (items ! i) = None
              \<longrightarrow> getProp (sugg ! i) (js ''reviewText'') = Some JNull)
         \<and> (suggestedChange (items ! i) = None
              \<longrightarrow> getProp (sugg ! i) (js ''suggestedChange'') = Some JNull))"
proof -
  let ?doc = "JObj [(js ''pr'', JStr prUrl), (js ''suggestions'', JArr (map normalized items))]"
  have p: "parseJSON (buildJSON prUrl items) = Some ?doc"
    by (simp only: buildJSON_def parseJSON_serialize)
  have g: "getProp ?doc (js ''suggestions'') = Some (JArr (map normalized items))"
    by (simp add: js_def)
  have n: "stringOrNull None = JNull" "numberOrNull None = JNull"
    by (simp_all add: stringOrNull_def numberOrNull_def orElse_def)
  have "\<forall>i<length items.
           getProp (map normalized items ! i) (js ''filePath'')
             = Some (stringOrNull (filePath (items ! i)))
         \<and> getProp (map normalized items ! i) (js ''lineStart'')
             = Some (numberOrNull (lineStart (items ! i)))
         \<and> getProp (map normalized items ! i) (js ''lineEnd'')
             = Some (numberOrNull (lineEnd (items ! i)))
         \<and> getProp (map normalized items ! i) (js ''codeMentioned'')
             = Some (stringOrNull (codeMentioned (items ! i)))
         \<and> getProp (map normalized items ! i) (js ''reviewText'')
             = Some (stringOrNull (reviewText (items ! i)))
         \<and> getProp (map normalized items ! i) (js ''suggestedChange'')
             = Some (stringOrNull (suggestedChange (items ! i)))"
    by (simp add: getProp_normalized)
  then have "\<forall>i<length items.
           getProp (map normalized items ! i) (js ''filePath'')
             = Some (stringOrNull (filePath (items ! i)))
         \<and> getProp (map normalized items ! i) (js ''lineStart'')
             = Some (numberOrNull (lineStart (items ! i)))
         \<and> getProp (map normalized items ! i) (js ''lineEnd'')
             = Some (numberOrNull (lineEnd (items ! i)))
         \<and> getProp (map normalized items ! i) (js ''codeMentioned'')
             = Some (stringOrNull (codeMentioned (items ! i)))
         \<and> getProp (map normalized items ! i) (js ''reviewText'')
             = Some (stringOrNull (reviewText (items ! i)))
         \<and> getProp (map normalized items ! i) (js ''suggestedChange'')
             = Some (stringOrNull (suggestedChange (items ! i)))
         \<and> (filePath (items ! i) = None
              \<longrightarrow> getProp (map normalized items ! i) (js ''filePath'') = Some JNull)
         \<and> (lineStart (items ! i) = None
              \<longrightarrow> getProp (map normalized items ! i) (js ''lineStart'') = Some JNull)
         \<and> (lineEnd (items ! i) = None
              \<longrightarrow> getProp (map normalized items ! i) (js ''lineEnd'') = Some JNull)
         \<and> (codeMentioned (items ! i) = None
              \<longrightarrow> getProp (map normalized items ! i) (js ''codeMentioned'') = Some JNull)
         \<and> (reviewText (items ! i) = None
              \<longrightarrow> getProp (map normalized items ! i) (js ''reviewText'') = Some JNull)
         \<and> (suggestedChange (items ! i) = None
              \<longrightarrow> getProp (map normalized items ! i) (js ''suggestedChange'') = Some JNull)"
    using n by simp
  with p g show ?thesis
    by (intro exI [of _ ?doc] exI [of _ "map normalized items"]) (simp add: n)
qed

theorem json_round_trip_witness:
  "\<exists>doc sugg.
     parseJSON (buildJSON (js ''https://github.com/o/r/pull/1'') [shortSuggestion, diffSuggestion])
       = Some doc
     \<and> getProp doc (js ''suggestions'') = Some (JArr sugg)
     \<and> length sugg = 2
     \<and> getProp (sugg ! 0) (js ''filePath'') = Some JNull
     \<and> getProp (sugg ! 0) (js ''lineStart'') = Some JNull
     \<and> getProp (sugg ! 0) (js ''suggestedChange'') = Some JNull
     \<and> getProp (sugg ! 1) (js ''filePath'') = Some (JStr (js ''src/app.js''))
     \<and> getProp (sugg ! 1) (js ''lineStart'') = Some (JNum 3)"
proof -
  from json_round_trip [of "js ''https://github.com/o/r/pull/1''"
                           "[shortSuggestion, diffSuggestion]"]
  obtain doc sugg where
      p: "parseJSON (buildJSON (js ''https://github.com/o/r/pull/1'')
                       [shortSuggestion, diffSuggestion]) = Some doc"
    and g: "getProp doc (js ''suggestions'') = Some (JArr sugg)"
    and l: "length sugg = length [shortSuggestion, diffSuggestion]"
    and a: "\<forall>i<length [shortSuggestion, diffSuggestion].
           getProp (sugg ! i) (js ''filePath'')
             = Some (stringOrNull (filePath ([shortSuggestion, diffSuggestion] ! i)))
         \<and> getProp (sugg ! i) (js ''lineStart'')
             = Some (numberOrNull (lineStart ([shortSuggestion, diffSuggestion] ! i)))
         \<and> (filePath ([shortSuggestion, diffSuggestion] ! i) = None
              \<longrightarrow> getProp (sugg ! i) (js ''filePath'') = Some JNull)
         \<and> (lineStart ([shortSuggestion, diffSuggestion] ! i) = None
              \<longrightarrow> getProp (sugg ! i) (js ''lineStart'') = Some JNull)
         \<and> (suggestedChange ([shortSuggestion, diffSuggestion] ! i) = None
              \<longrightarrow> getProp (sugg ! i) (js ''suggestedChange'') = Some JNull)"
    by blast
  have s: "filePath shortSuggestion = None" "lineStart shortSuggestion = None"
    "suggestedChange shortSuggestion = None"
    by (simp_all add: shortSuggestion_def)
  have d: "stringOrNull (filePath diffSuggestion) = JStr (js ''src/app.js'')"
    "numberOrNull (lineStart diffSuggestion) = JNum 3"
    by (simp_all add: diffSuggestion_def shortSuggestion_def stringOrNull_def numberOrNull_def
                      orElse_def js_def)
  from a [THEN spec, of 0] s
  have "getProp (sugg ! 0) (js ''filePath'') = Some JNull"
    "getProp (sugg ! 0) (js ''lineStart'') = Some JNull"
    "getProp (sugg ! 0) (js ''suggestedChange'') = Some JNull"
    by (simp_all add: stringOrNull_def numberOrNull_def orElse_def)
  moreover from a [THEN spec, of 1] d
  have "getProp (sugg ! 1) (js ''filePath'') = Some (JStr (js ''src/app.js''))"
    "getProp (sugg ! 1) (js ''lineStart'') = Some (JNum 3)"
    by simp_all
  ultimately show ?thesis using p g l by (intro exI [of _ doc] exI [of _ sugg]) simp
qed


subsection \<open>The selection state store\<close>

lemma newSet_empty: "newSet [] = []"
  by (simp add: newSet_def)

text \<open>
  C9. Whatever the persistence layer does, the four operations of the selection state
  store return and never throw: a read that fails, or that finds text that is not JSON,
  gives the empty set, and a save that fails is ignored and leaves the storage as it was.
\<close>

theorem store_never_throws:
  "(\<exists>ids. getDeselectedSet loc ls = Inr ids)
   \<and> (\<exists>ids. getIgnoredSet loc ls = Inr ids)
   \<and> (\<exists>ls'. saveDeselectedSet loc ls ids = Inr ls')
   \<and> (\<exists>ls'. saveIgnoredSet loc ls ids = Inr ls')
   \<and> (getItemThrows ls (currentPRKey loc @ js '':deselected'') \<noteq> None
        \<longrightarrow> getDeselectedSet loc ls = Inr [])
   \<and> (getItemThrows ls (currentPRKey loc @ js '':ignored'') \<noteq> None
        \<longrightarrow> getIgnoredSet loc ls = Inr [])
   \<and> (getItemThrows ls (currentPRKey loc @ js '':deselected'') = None
        \<and> (\<exists>raw. entries ls (currentPRKey loc @ js '':deselected'') = Some raw
                   \<and> parseJSON raw = None)
        \<longrightarrow> getDeselectedSet loc ls = Inr [])
   \<and> (getItemThrows ls (currentPRKey loc @ js '':ignored'') = None
        \<and> (\<exists>raw. entries ls (currentPRKey loc @ js '':ignored'') = Some raw
                   \<and> parseJSON raw = None)
        \<longrightarrow> getIgnoredSet loc ls = Inr [])
   \<and> (setItemThrows ls (currentPRKey loc @ js '':deselected'') (serialize 0 0 (JArr ids)) \<noteq> None
        \<longrightarrow> saveDeselectedSet loc ls ids = Inr ls)
   \<and> (setItemThrows ls (currentPRKey loc @ js '':ignored'') (serialize 0 0 (JArr ids)) \<noteq> None
        \<longrightarrow> saveIgnoredSet loc ls ids = Inr ls)"
proof -
  have g: "\<exists>ids. getDeselectedSet loc ls = Inr ids" "\<exists>ids. getIgnoredSet loc ls = Inr ids"
    by (auto simp: getDeselectedSet_def getIgnoredSet_def tryCatch_def
             split: sum.splits option.splits)
  have s: "\<exists>ls'. saveDeselectedSet loc ls ids = Inr ls'" "\<exists>ls'. saveIgnoredSet loc ls ids = Inr ls'"
    by (auto simp: saveDeselectedSet_def saveIgnoredSet_def tryCatch_def split: sum.splits)
  have r: "getItemThrows ls (currentPRKey loc @ js '':deselected'') \<noteq> None
            \<longrightarrow> getDeselectedSet loc ls = Inr []"
    "getItemThrows ls (currentPRKey loc @ js '':ignored'') \<noteq> None
            \<longrightarrow> getIgnoredSet loc ls = Inr []"
    by (auto simp: getDeselectedSet_def getIgnoredSet_def tryCatch_def getItem_def newSet_empty)
  have p: "getItemThrows ls (currentPRKey loc @ js '':deselected'') = None
        \<and> (\<exists>raw. entries ls (currentPRKey loc @ js '':deselected'') = Some raw
                   \<and> parseJSON raw = None)
        \<longrightarrow> getDeselectedSet loc ls = Inr []"
    "getItemThrows ls (currentPRKey loc @ js '':ignored'') = None
        \<and> (\<exists>raw. entries ls (currentPRKey loc @ js '':ignored'') = Some raw
                   \<and> parseJSON raw = None)
        \<longrightarrow> getIgnoredSet loc ls = Inr []"
    by (auto simp: getDeselectedSet_def getIgnoredSet_def tryCatch_def getItem_def newSet_empty
                   jsonParse_def)
  have w: "setItemThrows ls (currentPRKey loc @ js '':deselected'') (serialize 0 0 (JArr ids)) \<noteq> None
        \<longrightarrow> saveDeselectedSet loc ls ids = Inr ls"
    "setItemThrows ls (currentPRKey loc @ js '':ignored'') (serialize 0 0 (JArr ids)) \<noteq> None
        \<longrightarrow> saveIgnoredSet loc ls ids = Inr ls"
    by (auto simp: saveDeselectedSet_def saveIgnoredSet_def tryCatch_def setItem_def)
  from g s r p w show ?thesis by blast
qed

lemma garbled_unparsable: "parseJSON (js ''[1, 2'') = None"
  by code_simp

theorem store_never_throws_witness:
  "getItemThrows brokenStorage (currentPRKey prLocation @ js '':deselected'') \<noteq> None
   \<and> getDeselectedSet prLocation brokenStorage = Inr []
   \<and> setItemThrows brokenStorage (currentPRKey prLocation @ js '':ignored'')
        (serialize 0 0 (JArr [JStr (js ''t:0:0:abc'')])) \<noteq> None
   \<and> saveIgnoredSet prLocation brokenStorage [JStr (js ''t:0:0:abc'')] = Inr brokenStorage
   \<and> getItemThrows garbledStorage (currentPRKey prLocation @ js '':ignored'') = None
   \<and> entries garbledStorage (currentPRKey prLocation @ js '':ignored'') = Some (js ''[1, 2'')
   \<and> getIgnoredSet prLocation garbledStorage = Inr []"
proof -
  have a: "getItemThrows brokenStorage (currentPRKey prLocation @ js '':deselected'') \<noteq> None"
    by (simp add: brokenStorage_def)
  have b: "setItemThrows brokenStorage (currentPRKey prLocation @ js '':ignored'')
        (serialize 0 0 (JArr [JStr (js ''t:0:0:abc'')])) \<noteq> None"
    by (simp add: brokenStorage_def)
  have c: "getItemThrows garbledStorage (currentPRKey prLocation @ js '':ignored'') = None"
    "entries garbledStorage (currentPRKey prLocation @ js '':ignored'') = Some (js ''[1, 2'')"
    by (simp_all add: garbledStorage_def)
  from a store_never_throws [of prLocation brokenStorage]
  have 1: "getDeselectedSet prLocation brokenStorage = Inr []" by blast
  from b store_never_throws [of prLocation brokenStorage "[JStr (js ''t:0:0:abc'')]"]
  have 2: "saveIgnoredSet prLocation brokenStorage [JStr (js ''t:0:0:abc'')] = Inr brokenStorage"
    by blast
  from c garbled_unparsable store_never_throws [of prLocation garbledStorage]
  have 3: "getIgnoredSet prLocation garbledStorage = Inr []" by blast
  from a b c 1 2 3 show ?thesis by blast
qed

text \<open>What was saved is read back: the store is not a stub.\<close>

lemma saved_set_is_read_back:
  assumes "setItemThrows ls (currentPRKey loc @ js '':deselected'') (serialize 0 0 (JArr ids)) = None"
    and "getItemThrows ls (currentPRKey loc @ js '':deselected'') = None"
    and "saveDeselectedSet loc ls ids = Inr ls'"
  shows "getDeselectedSet loc ls' = Inr (newSet ids)"
proof -
  from assms(1,3) have ls': "ls' = ls \<lparr> entries := (entries ls)
        (currentPRKey loc @ js '':deselected'' \<mapsto> serialize 0 0 (JArr ids)) \<rparr>"
    by (simp add: saveDeselectedSet_def tryCatch_def setItem_def)
  obtain c cs where "serialize 0 0 (JArr ids) = c # cs"
    using serialize_head [of 0 0 "JArr ids"] by blast
  then have "truthyStr (Some (serialize 0 0 (JArr ids)))" by (simp add: truthyStr_def)
  with assms(2) show ?thesis
    by (simp add: ls' getDeselectedSet_def tryCatch_def getItem_def jsonParse_def
                  parseJSON_serialize del: serialize.simps)
qed


end
